theory Spec2Isabelle
  imports Main "HOL-Library.Word"
begin

unbundle bit_operations_syntax

section \<open>Bytes and the encoders of the Go standard library\<close>

type_synonym byte = "8 word"
type_synonym bytes = "byte list"
type_synonym uint32 = "32 word"
type_synonym uint64 = "64 word"

text \<open>
  Go's \<open>int\<close> is the machine word of the target; the node is built for 64-bit targets,
  so the loop variable of the worker is a 64-bit two's complement value: \<open>i >= 0\<close> is the
  signed comparison \<open>0 \<le>s i\<close>, \<open>i--\<close> is \<open>i - 1\<close> (wrapping), \<open>int(x)\<close> and \<open>uint32(i)\<close>
  are \<open>ucast\<close>.
\<close>

type_synonym go_int = "64 word"

text \<open>\<open>[]byte("...")\<close> of an ASCII literal.\<close>

definition bytesOf :: "string \<Rightarrow> bytes" where
  "bytesOf s = map (\<lambda>c. of_nat (of_char c)) s"

text \<open>\<open>binary.BigEndian.AppendUint32\<close> and \<open>AppendUint64\<close>: most significant byte first.\<close>

definition AppendUint32 :: "bytes \<Rightarrow> uint32 \<Rightarrow> bytes" where
  "AppendUint32 b v =
     b @ [ucast (drop_bit 24 v), ucast (drop_bit 16 v), ucast (drop_bit 8 v), ucast v]"

definition AppendUint64 :: "bytes \<Rightarrow> uint64 \<Rightarrow> bytes" where
  "AppendUint64 b v =
     b @ [ucast (drop_bit 56 v), ucast (drop_bit 48 v), ucast (drop_bit 40 v),
          ucast (drop_bit 32 v), ucast (drop_bit 24 v), ucast (drop_bit 16 v),
          ucast (drop_bit 8 v), ucast v]"

text \<open>The spec's \<open>bigEndianUint32\<close> and \<open>bigEndianUint64\<close>: the encoding on its own.\<close>

definition bigEndianUint32 :: "uint32 \<Rightarrow> bytes" where
  "bigEndianUint32 v = AppendUint32 [] v"

definition bigEndianUint64 :: "uint64 \<Rightarrow> bytes" where
  "bigEndianUint64 v = AppendUint64 [] v"

text \<open>
  \<open>big.Int.FillBytes(make([]byte, n))\<close>: the value as \<open>n\<close> big-endian bytes, zero-extended
  on the left; it panics (\<open>None\<close>) when the value does not fit in \<open>n\<close> bytes. The hash values
  are non-negative, so a \<open>nat\<close> stands for the \<open>big.Int\<close>.
\<close>

fun bigEndian :: "nat \<Rightarrow> nat \<Rightarrow> bytes" where
  "bigEndian 0 v = []"
| "bigEndian (Suc n) v = bigEndian n (v div 256) @ [of_nat (v mod 256)]"

definition FillBytes :: "nat \<Rightarrow> nat \<Rightarrow> bytes option" where
  "FillBytes v n = (if v < 256 ^ n then Some (bigEndian n v) else None)"

section \<open>Address of a pre-coin proof\<close>

text \<open>
  Modelled from the spec: the message type \<open>protobufs.PreCoinProof\<close> is generated code that
  is not among the sources. The spec lists its fields: amount, index (32-bit), indexProof,
  commitment, proof (opaque byte sequences), parallelism (32-bit), difficulty (32-bit) and
  owner, an account reference. \<open>Owner\<close> holds what \<open>proof.Owner.GetImplicitAccount()\<close>
  yields: the implicit account's address bytes, or \<open>None\<close> for the nil pointer that the
  getter returns on a proof without an implicit-account owner.
\<close>

record PreCoinProof =
  Amount :: bytes
  Index :: uint32
  IndexProof :: bytes
  Commitment :: bytes
  Proof :: bytes
  Parallelism :: uint32
  Difficulty :: uint32
  Owner :: "bytes option"

datatype failure = HashError | NilDereference | FillBytesPanic

text \<open>
  The bytes handed to the hash, built by the successive appends of lines 223-233. The
  constant \<open>application.TOKEN_ADDRESS\<close> (the domain tag) is a parameter.
\<close>

definition preCoinProofEval :: "bytes \<Rightarrow> PreCoinProof \<Rightarrow> bytes \<Rightarrow> bytes" where
  "preCoinProofEval TOKEN_ADDRESS proof ownerAddress =
     (let eval = [];
          eval = eval @ TOKEN_ADDRESS;
          eval = eval @ Amount proof;
          eval = AppendUint32 eval (Index proof);
          eval = eval @ IndexProof proof;
          eval = eval @ Commitment proof;
          eval = eval @ Proof proof;
          eval = AppendUint32 eval (Parallelism proof);
          eval = AppendUint32 eval (Difficulty proof);
          eval = AppendUint32 eval 0;
          eval = eval @ ownerAddress
      in eval)"

text \<open>
  \<open>GetAddressOfPreCoinProof\<close>; \<open>HashBytes\<close> is \<open>poseidon.HashBytes\<close>, an external library,
  taken as a parameter: \<open>None\<close> is its error return.
\<close>

definition GetAddressOfPreCoinProof ::
  "(bytes \<Rightarrow> nat option) \<Rightarrow> bytes \<Rightarrow> PreCoinProof \<Rightarrow> failure + bytes" where
  "GetAddressOfPreCoinProof HashBytes TOKEN_ADDRESS proof =
     (case Owner proof of
        None \<Rightarrow> Inl NilDereference
      | Some ownerAddress \<Rightarrow>
          (case HashBytes (preCoinProofEval TOKEN_ADDRESS proof ownerAddress) of
             None \<Rightarrow> Inl HashError
           | Some addressBI \<Rightarrow>
               (case FillBytes addressBI 32 of
                  None \<Rightarrow> Inl FillBytesPanic
                | Some address \<Rightarrow> Inr address)))"

section \<open>The pre-midnight proof worker: collaborators\<close>

datatype store_error = ErrNotFound | ErrOther

text \<open>The response of the remote status operation (\<open>status.Address\<close>, \<open>status.Increment\<close>).\<close>

record PreMidnightMintResponse =
  Address :: bytes
  Increment :: uint32

text \<open>
  What the worker does to the outside world, in program order: the ten-second sleep, the
  direct channel to the beacon opened and closed, the two remote calls, the reads of the
  local proof store and the signature request.
\<close>

datatype event =
    Slept
  | DialFailed bytes
  | Opened bytes
  | Closed
  | StatusCalled bytes
  | ProofRead uint32
  | Signed bytes
  | MintCalled "bytes list" bytes bytes

text \<open>
  The collaborators of the worker, which the spec treats as external interfaces. Those
  whose answer can change while the worker polls take the number of the poll (or of the
  session, for the channel and the two remote calls: a session makes at most one status
  call and at most one mint call). \<open>None\<close> is a non-nil \<open>err\<close>; for the status call also a
  nil response. The local proof store is read-only and its records are immutable, so
  \<open>GetDataTimeProof\<close> depends on the increment only (the peer id is the node's own); it
  yields parallelism, input and output. \<open>state\<close> is \<open>e.state\<close> at each poll and
  \<open>EngineStateCollecting\<close> the constant it is compared with; \<open>GetFrameProverTries\<close> is the
  number of tries at each poll; \<open>GetPreCoinProofsForOwner\<close> yields the proofs and the error
  of the call; \<open>genesisBeaconPeerId\<close> is the peer id made from the genesis beacon key
  (lines 53-62), \<open>None\<close> when either step fails; \<open>HashBytes\<close> is the external hash.
\<close>

record env =
  GetPeerID :: bytes
  GetPublicKey :: bytes
  GetLatestDataTimeProof :: "store_error + uint32"
  state :: "nat \<Rightarrow> nat"
  EngineStateCollecting :: nat
  HashBytes :: "bytes \<Rightarrow> nat option"
  genesisBeaconPeerId :: "bytes option"
  GetFrameProverTries :: "nat \<Rightarrow> nat"
  GetPreCoinProofsForOwner :: "bytes \<Rightarrow> PreCoinProof list \<times> store_error option"
  GetDirectChannel :: "nat \<Rightarrow> bytes \<Rightarrow> bool"
  GetPreMidnightMintStatus :: "nat \<Rightarrow> bytes \<Rightarrow> PreMidnightMintResponse option"
  GetDataTimeProof :: "uint32 \<Rightarrow> (uint32 \<times> bytes \<times> bytes) option"
  SignMessage :: "bytes \<Rightarrow> bytes option"
  HandlePreMidnightMint :: "nat \<Rightarrow> bytes list \<Rightarrow> bytes \<Rightarrow> bytes \<Rightarrow> bytes option"

datatype panic = LatestProofReadFailed | HashFailed | AddressTooWide | BadGenesisBeacon
  | SignFailed

datatype outcome =
    NoLegacyProofs
  | FetchFailed
  | AlreadyCompleted
  | MissingProof uint32
  | Submitted
  | Panicked panic

text \<open>The two variables that survive from one session to the next.\<close>

record cursor =
  resume :: bytes
  increment :: uint32

text \<open>How a session ends: the outer loop goes round again, or the worker returns.\<close>

datatype flow = Again cursor | Return outcome

section \<open>The batch loop (lines 129-215)\<close>

text \<open>The framed entry \<open>p\<close> of lines 142-148.\<close>

definition frameProof :: "go_int \<Rightarrow> uint32 \<Rightarrow> bytes \<Rightarrow> bytes \<Rightarrow> bytes" where
  "frameProof i parallelism inp outp =
     (let p = [];
          p = AppendUint32 p (ucast i);
          p = AppendUint32 p parallelism;
          p = AppendUint64 p (of_nat (length inp));
          p = p @ inp;
          p = AppendUint64 p (of_nat (length outp));
          p = p @ outp
      in p)"

text \<open>The payload loop of lines 165-168.\<close>

definition signingPayload :: "bytes list \<Rightarrow> bytes" where
  "signingPayload proofs = foldl (\<lambda>payload i. payload @ i) (bytesOf ''mint'') proofs"

text \<open>
  Lines 163-213: the batch is signed and sent. A failed signature panics after the
  channel is closed. A failed call closes the channel, sleeps, leaves the inner loop and
  meets the \<open>cc.Close()\<close> of line 216 again; the cursor is as it was. A successful call
  stores the returned address and, unless \<open>i\<close> is 0, the next increment, and leaves the
  inner loop too.
\<close>

definition publishBatch ::
  "env \<Rightarrow> nat \<Rightarrow> cursor \<Rightarrow> bytes list \<Rightarrow> go_int \<Rightarrow> event list \<times> flow" where
  "publishBatch e k c proofs i =
     (let payload = signingPayload proofs in
      case SignMessage e payload of
        None \<Rightarrow> ([Signed payload, Closed], Return (Panicked SignFailed))
      | Some sig \<Rightarrow>
          (case HandlePreMidnightMint e k proofs (GetPublicKey e) sig of
             None \<Rightarrow>
               ([Signed payload, MintCalled proofs (GetPublicKey e) sig, Closed, Slept, Closed],
                Again c)
           | Some respAddress \<Rightarrow>
               if i = 0
               then ([Signed payload, MintCalled proofs (GetPublicKey e) sig, Closed],
                     Return Submitted)
               else ([Signed payload, MintCalled proofs (GetPublicKey e) sig, Closed],
                     Again (c\<lparr>resume := respAddress, increment := ucast i - 1\<rparr>))))"

text \<open>
  The inner loop \<open>for i := int(increment); i >= 0; i--\<close>, from the state at the head of an
  iteration. A failed read closes the channel and returns from the worker.
\<close>

function batchLoop ::
  "env \<Rightarrow> nat \<Rightarrow> cursor \<Rightarrow> bytes list \<Rightarrow> nat \<Rightarrow> go_int \<Rightarrow> event list \<times> flow" where
  "batchLoop e k c proofs batchCount i =
     (if \<not> (0 \<le>s i) then ([Closed], Again c)
      else
        (case GetDataTimeProof e (ucast i) of
           None \<Rightarrow> ([ProofRead (ucast i), Closed], Return (MissingProof (ucast i)))
         | Some (parallelism, inp, outp) \<Rightarrow>
             (let proofs = proofs @ [frameProof i parallelism inp outp];
                  batchCount = batchCount + 1
              in if batchCount = 200 \<or> i = 0
                 then (let (evs, r) = publishBatch e k c proofs i
                       in (ProofRead (ucast i) # evs, r))
                 else (let (evs, r) = batchLoop e k c proofs batchCount (i - 1)
                       in (ProofRead (ucast i) # evs, r)))))"
  by pat_completeness auto

lemma sint_pred_nonneg:
  fixes i :: go_int
  assumes "0 \<le>s i"
  shows "sint (i - 1) = sint i - 1"
proof -
  have "0 \<le> sint i" using assms by (simp add: word_sle_eq)
  moreover have "sint i < 2 ^ 63" using sint_lt [of i] by simp
  ultimately show ?thesis
    by (simp add: sint_word_ariths signed_take_bit_int_eq_self)
qed

termination batchLoop
  by (relation "measure (\<lambda>(e, k, c, proofs, batchCount, i). nat (sint i + 1))")
     (auto simp: sint_pred_nonneg word_sle_eq)

declare batchLoop.simps [simp del]

section \<open>One session (lines 89-216) and the outer loop\<close>

text \<open>Lines 120-126: the status response replaces the cursor.\<close>

definition adoptStatus :: "PreMidnightMintResponse \<Rightarrow> cursor \<Rightarrow> cursor" where
  "adoptStatus status c =
     c\<lparr>resume := Address status,
       increment := (if Increment status \<noteq> 0 then Increment status - 1 else 0)\<rparr>"

text \<open>Lines 129-136: the fresh batch, the zeroed count and the loop variable \<open>int(increment)\<close>.\<close>

definition startBatch :: "env \<Rightarrow> nat \<Rightarrow> cursor \<Rightarrow> event list \<times> flow" where
  "startBatch e k c =
     batchLoop e k c [bytesOf ''pre-dusk'', resume c] 0 (ucast (increment c))"

text \<open>
  Lines 89-127 and 216: one turn of the outer loop, for the session number \<open>k\<close>. The reply
  to the status call is asked for only when the resume token is 32 zero bytes.
\<close>

definition session :: "env \<Rightarrow> bytes \<Rightarrow> bytes \<Rightarrow> nat \<Rightarrow> cursor \<Rightarrow> event list \<times> flow" where
  "session e peerId addr k c =
     (if \<not> GetDirectChannel e k peerId then ([DialFailed peerId, Slept], Again c)
      else if resume c = replicate 32 0
      then (case GetPreMidnightMintStatus e k addr of
              None \<Rightarrow> ([Opened peerId, StatusCalled addr, Slept, Closed], Again c)
            | Some status \<Rightarrow>
                (let (evs, r) = startBatch e k (adoptStatus status c)
                 in (Opened peerId # StatusCalled addr # evs, r)))
      else (let (evs, r) = startBatch e k c in (Opened peerId # evs, r)))"

text \<open>
  The outer \<open>for\<close> of line 88 retries without bound, so the model takes fuel: the number of
  sessions it may still start. \<open>None\<close> is a worker that is still running when the fuel is
  spent; the events up to that point are kept.
\<close>

fun sessionLoop ::
  "nat \<Rightarrow> env \<Rightarrow> bytes \<Rightarrow> bytes \<Rightarrow> nat \<Rightarrow> cursor \<Rightarrow> event list \<times> outcome option" where
  "sessionLoop 0 e peerId addr k c = ([], None)"
| "sessionLoop (Suc fuel) e peerId addr k c =
     (case session e peerId addr k c of
        (evs, Return r) \<Rightarrow> (evs, Some r)
      | (evs, Again c') \<Rightarrow>
          (let (evs', r) = sessionLoop fuel e peerId addr (Suc k) c' in (evs @ evs', r)))"

section \<open>The readiness gate (lines 25-85) and the whole worker\<close>

text \<open>Lines 37-44: poll the engine state every ten seconds.\<close>

fun waitForCollecting :: "nat \<Rightarrow> env \<Rightarrow> nat \<Rightarrow> event list \<times> unit option" where
  "waitForCollecting 0 e k = ([], None)"
| "waitForCollecting (Suc fuel) e k =
     (if state e k < EngineStateCollecting e
      then (let (evs, r) = waitForCollecting fuel e (Suc k) in (Slept # evs, r))
      else ([], Some ()))"

datatype gate = Ready | Stop outcome

text \<open>
  Lines 64-85: wait for prover tries, then ask the coin store once. An error other than
  not-found is logged and the worker returns; so it does when a proof is listed.
\<close>

fun checkAlreadyMinted :: "nat \<Rightarrow> env \<Rightarrow> bytes \<Rightarrow> nat \<Rightarrow> event list \<times> gate option" where
  "checkAlreadyMinted 0 e addr k = ([], None)"
| "checkAlreadyMinted (Suc fuel) e addr k =
     (if GetFrameProverTries e k = 0
      then (let (evs, r) = checkAlreadyMinted fuel e addr (Suc k) in (Slept # evs, r))
      else (case GetPreCoinProofsForOwner e addr of (prfs, err) \<Rightarrow>
              if err \<noteq> None \<and> err \<noteq> Some ErrNotFound then ([], Some (Stop FetchFailed))
              else if length prfs \<noteq> 0 then ([], Some (Stop AlreadyCompleted))
              else ([], Some Ready)))"

text \<open>
  The worker. Each of its three unbounded loops may take up to \<open>fuel\<close> turns; the result
  is the trace and, when the worker has returned or panicked, how.
\<close>

definition runPreMidnightProofWorker :: "nat \<Rightarrow> env \<Rightarrow> event list \<times> outcome option" where
  "runPreMidnightProofWorker fuel e =
     (case GetLatestDataTimeProof e of
        Inl ErrNotFound \<Rightarrow> ([], Some NoLegacyProofs)
      | Inl ErrOther \<Rightarrow> ([], Some (Panicked LatestProofReadFailed))
      | Inr latestIncrement \<Rightarrow>
          (case waitForCollecting fuel e 0 of
             (evs1, None) \<Rightarrow> (evs1, None)
           | (evs1, Some _) \<Rightarrow>
               (case HashBytes e (GetPeerID e) of
                  None \<Rightarrow> (evs1, Some (Panicked HashFailed))
                | Some addrBI \<Rightarrow>
                    (case FillBytes addrBI 32 of
                       None \<Rightarrow> (evs1, Some (Panicked AddressTooWide))
                     | Some addr \<Rightarrow>
                         (case genesisBeaconPeerId e of
                            None \<Rightarrow> (evs1, Some (Panicked BadGenesisBeacon))
                          | Some peerId \<Rightarrow>
                              (case checkAlreadyMinted fuel e addr 0 of
                                 (evs2, None) \<Rightarrow> (evs1 @ evs2, None)
                               | (evs2, Some (Stop r)) \<Rightarrow> (evs1 @ evs2, Some r)
                               | (evs2, Some Ready) \<Rightarrow>
                                   (let (evs3, r) =
                                          sessionLoop fuel e peerId addr 0
                                            \<lparr>resume = replicate 32 0, increment = latestIncrement\<rparr>
                                    in (evs1 @ evs2 @ evs3, r))))))))"

section \<open>The spec's words for a batch\<close>

text \<open>
  The framed proof entry as the spec writes it (section 4.5 and section 6):
  \<open>uint32(increment) || uint32(parallelism) || uint64(len(input)) || input ||
  uint64(len(output)) || output\<close>, all integers big-endian.
\<close>

definition specFrame :: "uint32 \<Rightarrow> uint32 \<Rightarrow> bytes \<Rightarrow> bytes \<Rightarrow> bytes" where
  "specFrame inc parallelism inp outp =
     bigEndianUint32 inc @ bigEndianUint32 parallelism
       @ bigEndianUint64 (of_nat (length inp)) @ inp
       @ bigEndianUint64 (of_nat (length outp)) @ outp"

text \<open>The framed entry of the record stored at increment \<open>j\<close>.\<close>

definition framedEntry :: "env \<Rightarrow> nat \<Rightarrow> bytes" where
  "framedEntry e j =
     (case GetDataTimeProof e (of_nat j) of
        None \<Rightarrow> []
      | Some (parallelism, inp, outp) \<Rightarrow> specFrame (of_nat j) parallelism inp outp)"

text \<open>
  The increments of one batch, in decreasing order: from \<open>n\<close> down, until the count, which
  stands at \<open>b\<close>, reaches 200 or the increment reaches 0.
\<close>

definition batchLow :: "nat \<Rightarrow> nat \<Rightarrow> nat" where
  "batchLow n b = n - min (199 - b) n"

definition batchWindow :: "nat \<Rightarrow> nat \<Rightarrow> nat list" where
  "batchWindow n b = rev [batchLow n b ..< Suc n]"

definition present :: "env \<Rightarrow> nat \<Rightarrow> bool" where
  "present e j = (GetDataTimeProof e (of_nat j) \<noteq> None)"

text \<open>
  What one pass of the inner loop does, written without the loop: it reads the window
  from the top; at the first absent record it closes the channel and stops the worker;
  with the whole window read it publishes the batch.
\<close>

definition batchClosed ::
  "env \<Rightarrow> nat \<Rightarrow> cursor \<Rightarrow> bytes list \<Rightarrow> nat \<Rightarrow> nat \<Rightarrow> event list \<times> flow" where
  "batchClosed e k c proofs n b =
     (let w = batchWindow n b in
      case find (\<lambda>j. \<not> present e j) w of
        Some j \<Rightarrow>
          (map (\<lambda>j. ProofRead (of_nat j)) (takeWhile (present e) w)
             @ [ProofRead (of_nat j), Closed],
           Return (MissingProof (of_nat j)))
      | None \<Rightarrow>
          (let r = publishBatch e k c (proofs @ map (framedEntry e) w) (of_nat (batchLow n b))
           in (map (\<lambda>j. ProofRead (of_nat j)) w @ fst r, snd r)))"

text \<open>The batch that a session builds from its cursor when every record is there.\<close>

definition batchOf :: "env \<Rightarrow> cursor \<Rightarrow> bytes list" where
  "batchOf e c =
     bytesOf ''pre-dusk'' # resume c
       # map (framedEntry e) (batchWindow (unat (increment c)) 0)"

section \<open>Reading a trace\<close>

text \<open>The increments read from the local store, and the batches sent, in order.\<close>

fun readsOf :: "event list \<Rightarrow> uint32 list" where
  "readsOf [] = []"
| "readsOf (ProofRead i # evs) = i # readsOf evs"
| "readsOf (_ # evs) = readsOf evs"

fun batchesOf :: "event list \<Rightarrow> bytes list list" where
  "batchesOf [] = []"
| "batchesOf (MintCalled ps pk sig # evs) = ps # batchesOf evs"
| "batchesOf (_ # evs) = batchesOf evs"

text \<open>The events that neither submit nor wait: the status call and the reads.\<close>

fun quiet :: "event \<Rightarrow> bool" where
  "quiet (StatusCalled a) = True"
| "quiet (ProofRead i) = True"
| "quiet ev = False"

text \<open>
  Lines 46-51: the address derived from the node's peer id, when the hash succeeds and its
  value fits in 32 bytes.
\<close>

definition selfAddress :: "env \<Rightarrow> bytes option" where
  "selfAddress e =
     (case HashBytes e (GetPeerID e) of None \<Rightarrow> None | Some addrBI \<Rightarrow> FillBytes addrBI 32)"

section \<open>Sample nodes for the examples\<close>

text \<open>
  A sample node for the examples: every collaborator answers at once, the local store
  holds a record at every increment, and the remote side reports increment 3.
\<close>

definition sampleEnv :: env where
  "sampleEnv = \<lparr>
     GetPeerID = [1], GetPublicKey = [2], GetLatestDataTimeProof = Inr 5,
     state = (\<lambda>k. 3), EngineStateCollecting = 3,
     HashBytes = (\<lambda>b. Some 7), genesisBeaconPeerId = Some [9],
     GetFrameProverTries = (\<lambda>k. 1),
     GetPreCoinProofsForOwner = (\<lambda>a. ([], Some ErrNotFound)),
     GetDirectChannel = (\<lambda>k p. True),
     GetPreMidnightMintStatus = (\<lambda>k a. Some \<lparr>Address = replicate 32 1, Increment = 3\<rparr>),
     GetDataTimeProof = (\<lambda>i. Some (1, [10], [20])),
     SignMessage = (\<lambda>pl. Some [170]),
     HandlePreMidnightMint = (\<lambda>k ps pk sig. Some (replicate 32 2))\<rparr>"

text \<open>The sample node with the records of increments 0 to 5 only.\<close>

definition scenarioEnv :: env where
  "scenarioEnv =
     sampleEnv\<lparr>GetDataTimeProof := (\<lambda>i. if i \<le> 5 then Some (1, [10], [20]) else None)\<rparr>"

text \<open>The sample node with the record of increment 1 missing.\<close>

definition gapEnv :: env where
  "gapEnv =
     sampleEnv\<lparr>GetDataTimeProof := (\<lambda>i. if i = 1 then None else Some (1, [10], [20]))\<rparr>"

text \<open>A proof-of-ownership record, and the sample node with it, or with a failing coin store.\<close>

definition sampleProof :: PreCoinProof where
  "sampleProof = \<lparr>Amount = [1], Index = 0, IndexProof = [], Commitment = [1], Proof = [1, 1],
     Parallelism = 1, Difficulty = 1, Owner = Some (replicate 32 7)\<rparr>"

definition mintedEnv :: env where
  "mintedEnv = sampleEnv\<lparr>GetPreCoinProofsForOwner := (\<lambda>a. ([sampleProof], None))\<rparr>"

definition brokenStoreEnv :: env where
  "brokenStoreEnv = sampleEnv\<lparr>GetPreCoinProofsForOwner := (\<lambda>a. ([], Some ErrOther))\<rparr>"

text \<open>The sample node when the remote status carries an all-zero address and increment 201.\<close>

definition zeroTokenEnv :: env where
  "zeroTokenEnv =
     sampleEnv\<lparr>GetPreMidnightMintStatus :=
       (\<lambda>k a. Some \<lparr>Address = replicate 32 0, Increment = 201\<rparr>)\<rparr>"

text \<open>The same node when the remote side also refuses every batch.\<close>

definition zeroTokenRefusedEnv :: env where
  "zeroTokenRefusedEnv =
     zeroTokenEnv\<lparr>HandlePreMidnightMint := (\<lambda>k ps pk sig. None)\<rparr>"

text \<open>
  The sample proof with commitment and proof swapped, and a stand-in for the hash in the
  examples: the number of bytes hashed.
\<close>

definition swappedProof :: PreCoinProof where
  "swappedProof = sampleProof\<lparr>Commitment := Proof sampleProof, Proof := Commitment sampleProof\<rparr>"

definition lengthHash :: "bytes \<Rightarrow> nat option" where
  "lengthHash bs = Some (length bs)"

section \<open>Lemmas on the encoders\<close>

lemma length_bigEndian: "length (bigEndian n v) = n"
  by (induction n arbitrary: v) simp_all

lemma length_bigEndianUint32: "length (bigEndianUint32 v) = 4"
  by (simp add: bigEndianUint32_def AppendUint32_def)

lemma AppendUint32_eq: "AppendUint32 b v = b @ bigEndianUint32 v"
  by (simp add: bigEndianUint32_def AppendUint32_def)

lemma AppendUint64_eq: "AppendUint64 b v = b @ bigEndianUint64 v"
  by (simp add: bigEndianUint64_def AppendUint64_def)

section \<open>The loop variable never wraps\<close>

lemma ucast_of_nat_64_32:
  "n < 2 ^ 32 \<Longrightarrow> (ucast (of_nat n :: go_int) :: uint32) = of_nat n"
  by (simp add: ucast_eq unsigned_of_nat take_bit_nat_eq_self)

lemma sint_of_nat_64:
  assumes "n < 2 ^ 32"
  shows "sint (of_nat n :: go_int) = int n"
proof -
  have "int n < 2 ^ 63"
  proof -
    have "int n < 2 ^ 32" using assms by simp
    also have "(2::int) ^ 32 < 2 ^ 63" by simp
    finally show ?thesis .
  qed
  then show ?thesis
    by (simp add: signed_of_nat signed_take_bit_int_eq_self)
qed

lemma sle_of_nat_64: "n < 2 ^ 32 \<Longrightarrow> 0 \<le>s (of_nat n :: go_int)"
  by (simp add: word_sle_eq sint_of_nat_64)

lemma of_nat_64_eq_0: "n < 2 ^ 32 \<Longrightarrow> (of_nat n :: go_int) = 0 \<longleftrightarrow> n = 0"
  using sint_of_nat_64 by force

lemma not_sle_minus1: "\<not> (0 \<le>s (-1 :: go_int))"
  by (simp add: word_sle_eq)

text \<open>One turn of the loop at a loop variable that holds a 32-bit increment.\<close>

lemma batchLoop_of_nat:
  assumes "n < 2 ^ 32"
  shows "batchLoop e k c proofs batchCount (of_nat n) =
     (case GetDataTimeProof e (of_nat n) of
        None \<Rightarrow> ([ProofRead (of_nat n), Closed], Return (MissingProof (of_nat n)))
      | Some (parallelism, inp, outp) \<Rightarrow>
          (let proofs' = proofs @ [frameProof (of_nat n) parallelism inp outp] in
           if Suc batchCount = 200 \<or> n = 0
           then (ProofRead (of_nat n) # fst (publishBatch e k c proofs' (of_nat n)),
                 snd (publishBatch e k c proofs' (of_nat n)))
           else (ProofRead (of_nat n) # fst (batchLoop e k c proofs' (Suc batchCount) (of_nat (n - 1))),
                 snd (batchLoop e k c proofs' (Suc batchCount) (of_nat (n - 1))))))"
proof -
  have a: "0 \<le>s (of_nat n :: go_int)" using assms by (rule sle_of_nat_64)
  have b: "(ucast (of_nat n :: go_int) :: uint32) = of_nat n"
    using assms by (rule ucast_of_nat_64_32)
  have c: "((of_nat n :: go_int) = 0) = (n = 0)" using assms by (rule of_nat_64_eq_0)
  have d: "(of_nat n :: go_int) - 1 = of_nat (n - 1)" if "n \<noteq> 0"
    using that by (cases n) simp_all
  show ?thesis
  proof (cases "GetDataTimeProof e (of_nat n)")
    case None
    then show ?thesis by (subst batchLoop.simps) (simp add: a b)
  next
    case (Some rec)
    obtain parallelism inp outp where rec: "rec = (parallelism, inp, outp)"
      by (cases rec) auto
    show ?thesis
    proof (cases "Suc batchCount = 200 \<or> n = 0")
      case True
      then show ?thesis
        by (subst batchLoop.simps)
           (auto simp add: a b c Some rec Let_def split: prod.splits simp del: of_nat_diff)
    next
      case False
      then have "n \<noteq> 0" by simp
      note d' = d [OF this]
      from False show ?thesis
        by (subst batchLoop.simps)
           (simp add: a b c d' Some rec Let_def split: prod.splits del: of_nat_diff)
    qed
  qed
qed

section \<open>The inner loop in closed form\<close>

lemma frameProof_eq:
  "n < 2 ^ 32 \<Longrightarrow> frameProof (of_nat n) parallelism inp outp
     = specFrame (of_nat n) parallelism inp outp"
  by (simp add: frameProof_def specFrame_def AppendUint32_eq AppendUint64_eq
      ucast_of_nat_64_32 Let_def)

lemma framedEntry_present:
  "n < 2 ^ 32 \<Longrightarrow> GetDataTimeProof e (of_nat n) = Some (parallelism, inp, outp)
    \<Longrightarrow> framedEntry e n = frameProof (of_nat n) parallelism inp outp"
  by (simp add: framedEntry_def frameProof_eq)

lemma batchLow_0: "batchLow 0 b = 0"
  by (simp add: batchLow_def)

lemma batchLow_full: "batchLow n 199 = n"
  by (simp add: batchLow_def)

lemma batchLow_Suc: "Suc b < 200 \<Longrightarrow> batchLow (Suc n) b = batchLow n (Suc b)"
  by (simp add: batchLow_def min_def)

lemma batchLow_le: "batchLow n b \<le> n"
  by (simp add: batchLow_def)

lemma batchWindow_0: "batchWindow 0 b = [0]"
  by (simp add: batchWindow_def batchLow_0)

lemma batchWindow_full: "batchWindow n 199 = [n]"
  by (simp add: batchWindow_def batchLow_full)

lemma batchWindow_Suc:
  "Suc b < 200 \<Longrightarrow> batchWindow (Suc n) b = Suc n # batchWindow n (Suc b)"
  using batchLow_le [of n "Suc b"]
  by (simp add: batchWindow_def batchLow_Suc)

lemma batchLoop_closed:
  assumes "n < 2 ^ 32" and "b < 200"
  shows "batchLoop e k c proofs b (of_nat n) = batchClosed e k c proofs n b"
  using assms
proof (induction n arbitrary: proofs b)
  case 0
  show ?case
  proof (cases "GetDataTimeProof e 0")
    case None
    then show ?thesis
      using batchLoop_of_nat [of 0 e k c proofs b]
      by (simp add: batchClosed_def batchWindow_0 present_def)
  next
    case (Some rec)
    obtain parallelism inp outp where rec: "rec = (parallelism, inp, outp)"
      by (cases rec) auto
    have "framedEntry e 0 = frameProof 0 parallelism inp outp"
      using framedEntry_present [of 0 e parallelism inp outp] Some rec by simp
    then show ?thesis
      using batchLoop_of_nat [of 0 e k c proofs b] Some rec
      by (simp add: batchClosed_def batchWindow_0 batchLow_0 present_def Let_def)
  qed
next
  case (Suc n)
  then have n: "n < 2 ^ 32" by simp
  note step = batchLoop_of_nat [OF Suc.prems(1), of e k c proofs b]
  show ?case
  proof (cases "GetDataTimeProof e (of_nat (Suc n))")
    case None
    have "batchWindow (Suc n) b = Suc n # tl (batchWindow (Suc n) b)"
      using batchWindow_Suc [of b n] batchWindow_full [of "Suc n"] Suc.prems(2)
      by (cases "b = 199") auto
    then have "find (\<lambda>j. \<not> present e j) (batchWindow (Suc n) b) = Some (Suc n)"
      and "takeWhile (present e) (batchWindow (Suc n) b) = []"
      using None by (metis find.simps(2) present_def, metis takeWhile.simps(2) present_def)
    then show ?thesis
      using step None by (simp add: batchClosed_def del: of_nat_Suc)
  next
    case (Some rec)
    obtain parallelism inp outp where rec: "rec = (parallelism, inp, outp)"
      by (cases rec) auto
    have fe: "framedEntry e (Suc n) = frameProof (of_nat (Suc n)) parallelism inp outp"
      using framedEntry_present [OF Suc.prems(1), of e parallelism inp outp] Some rec by simp
    have pres: "present e (Suc n)" using Some by (simp add: present_def del: of_nat_Suc)
    show ?thesis
    proof (cases "Suc b = 200")
      case True
      then have b: "b = 199" by simp
      show ?thesis
        using step Some rec pres fe
        by (simp add: b batchClosed_def batchWindow_full batchLow_full Let_def del: of_nat_Suc)
    next
      case False
      then have sb: "Suc b < 200" using Suc.prems(2) by simp
      have ih: "batchLoop e k c (proofs @ [frameProof (of_nat (Suc n)) parallelism inp outp])
                  (Suc b) (of_nat n)
                = batchClosed e k c (proofs @ [frameProof (of_nat (Suc n)) parallelism inp outp])
                    n (Suc b)"
        by (rule Suc.IH [OF n sb])
      show ?thesis
        using step Some rec pres fe False
        by (simp add: ih batchClosed_def batchWindow_Suc [OF sb] batchLow_Suc [OF sb] Let_def
            split: option.splits del: of_nat_Suc)
    qed
  qed
qed

section \<open>One pass of the inner loop, from a cursor\<close>

lemma ucast_32_64_unat: "(ucast (w :: uint32) :: go_int) = of_nat (unat w)"
  by simp

lemma unat_32_lt: "unat (w :: uint32) < 2 ^ 32"
  using unsigned_less [of w, where 'a = nat] by simp

lemma unat_of_nat_32: "j < 2 ^ 32 \<Longrightarrow> unat (of_nat j :: uint32) = j"
  by (simp add: unat_of_nat)

lemma startBatch_closed:
  "startBatch e k c
     = batchClosed e k c [bytesOf ''pre-dusk'', resume c] (unat (increment c)) 0"
  unfolding startBatch_def ucast_32_64_unat
  by (rule batchLoop_closed [OF unat_32_lt]) simp

lemma readsOf_append: "readsOf (xs @ ys) = readsOf xs @ readsOf ys"
  by (induction xs rule: readsOf.induct) simp_all

lemma readsOf_ProofReads: "readsOf (map (\<lambda>j. ProofRead (f j)) w) = map f w"
  by (induction w) simp_all

lemma find_takeWhile:
  "find (\<lambda>x. \<not> P x) xs = Some j \<Longrightarrow>
     takeWhile P xs @ [j] = take (Suc (length (takeWhile P xs))) xs
     \<and> length (takeWhile P xs) < length xs"
  by (induction xs) (auto split: if_splits)

lemma take_countdown:
  "m \<le> Suc n - l \<Longrightarrow> take m (rev [l ..< Suc n]) = rev [Suc n - m ..< Suc n]"
proof -
  assume m: "m \<le> Suc n - l"
  have "take m (rev [l ..< Suc n]) = rev (drop (Suc n - l - m) [l ..< Suc n])"
    by (simp add: take_rev del: upt_Suc)
  also have "drop (Suc n - l - m) [l ..< Suc n] = [l + (Suc n - l - m) ..< Suc n]"
    by (simp only: drop_upt)
  also have "l + (Suc n - l - m) = Suc n - m \<or> (Suc n \<le> l \<and> m = 0)" using m by arith
  then have "[l + (Suc n - l - m) ..< Suc n] = [Suc n - m ..< Suc n]"
    by (auto simp del: upt_Suc)
  finally show ?thesis .
qed

lemma length_batchWindow: "length (batchWindow n b) = Suc (min (199 - b) n)"
  by (simp add: batchWindow_def batchLow_def)

lemma batchWindow_countdown:
  "batchWindow n b = rev [Suc n - Suc (min (199 - b) n) ..< Suc n]"
  by (simp add: batchWindow_def batchLow_def)

lemma set_batchWindow: "j \<in> set (batchWindow n b) \<Longrightarrow> j \<le> n"
  by (auto simp: batchWindow_def)

lemma publishBatch_reads: "readsOf (fst (publishBatch e k c ps i)) = []"
  by (simp add: publishBatch_def Let_def split: option.splits)

lemma startBatch_reads:
  "readsOf (fst (startBatch e k c)) =
     map of_nat
       (case find (\<lambda>j. \<not> present e j) (batchWindow (unat (increment c)) 0) of
          None \<Rightarrow> batchWindow (unat (increment c)) 0
        | Some j \<Rightarrow> takeWhile (present e) (batchWindow (unat (increment c)) 0) @ [j])"
  by (simp add: startBatch_closed batchClosed_def Let_def readsOf_append readsOf_ProofReads
      publishBatch_reads split: option.splits)

lemma startBatch_reads_countdown:
  fixes c :: cursor
  defines "n \<equiv> unat (increment c)"
  shows "\<exists>m. 0 < m \<and> m \<le> min 200 (Suc n)
           \<and> map unat (readsOf (fst (startBatch e k c))) = rev [Suc n - m ..< Suc n]"
proof -
  let ?w = "batchWindow n 0"
  have len: "length ?w = Suc (min 199 n)" by (simp add: length_batchWindow)
  have w: "?w = rev [Suc n - Suc (min 199 n) ..< Suc n]"
    using batchWindow_countdown [of n 0] by simp
  have n: "n < 2 ^ 32" unfolding n_def by (rule unat_32_lt)
  have unat_back: "map unat (map (of_nat :: nat \<Rightarrow> uint32) xs) = xs" if "set xs \<subseteq> {..n}" for xs
  proof -
    have "unat (of_nat j :: uint32) = j" if "j \<in> set xs" for j
      using that \<open>set xs \<subseteq> {..n}\<close> n by (intro unat_of_nat_32) auto
    then show ?thesis by (simp add: map_idI)
  qed
  show ?thesis
  proof (cases "find (\<lambda>j. \<not> present e j) ?w")
    case None
    have "map unat (readsOf (fst (startBatch e k c))) = ?w"
      using None unat_back [of ?w] set_batchWindow [of _ n 0]
      by (auto simp: startBatch_reads n_def [symmetric])
    then have "map unat (readsOf (fst (startBatch e k c)))
                 = rev [Suc n - Suc (min 199 n) ..< Suc n]"
      using w by simp
    moreover have "0 < Suc (min 199 n) \<and> Suc (min 199 n) \<le> min 200 (Suc n)" by simp
    ultimately show ?thesis by blast
  next
    case (Some j)
    let ?m = "Suc (length (takeWhile (present e) ?w))"
    from find_takeWhile [OF Some]
    have tw: "takeWhile (present e) ?w @ [j] = take ?m ?w"
      and lt: "length (takeWhile (present e) ?w) < length ?w" by simp_all
    have "set (take ?m ?w) \<subseteq> {..n}"
      using set_batchWindow [of _ n 0] by (auto dest: in_set_takeD)
    then have "map unat (readsOf (fst (startBatch e k c))) = take ?m ?w"
      using Some unat_back [of "take ?m ?w"] tw
      by (simp add: startBatch_reads n_def [symmetric])
    also have "\<dots> = rev [Suc n - ?m ..< Suc n]"
    proof -
      have "?m \<le> Suc n - (Suc n - Suc (min 199 n))" using lt unfolding len by arith
      from take_countdown [OF this] show ?thesis using w by simp
    qed
    finally have eq: "map unat (readsOf (fst (startBatch e k c))) = rev [Suc n - ?m ..< Suc n]" .
    have "0 < ?m \<and> ?m \<le> min 200 (Suc n)" using lt unfolding len by arith
    with eq show ?thesis by blast
  qed
qed

lemma startBatch_reads_zero:
  "increment c = 0 \<Longrightarrow> readsOf (fst (startBatch e k c)) = [0]"
  by (simp add: startBatch_reads batchWindow_0 split: option.splits if_splits)

lemma foldl_append_concat: "foldl (\<lambda>payload i. payload @ i) a xs = a @ concat xs"
  by (induction xs arbitrary: a) simp_all

lemma signingPayload_eq: "signingPayload proofs = bytesOf ''mint'' @ concat proofs"
  by (simp add: signingPayload_def foldl_append_concat)

lemma find_absent_None:
  "find (\<lambda>j. \<not> present e j) w = None \<longleftrightarrow> (\<forall>j\<in>set w. present e j)"
  by (auto simp: find_None_iff)

lemma startBatch_all_present:
  assumes "\<forall>j\<in>set (batchWindow (unat (increment c)) 0). present e j"
  shows "startBatch e k c =
     (map (\<lambda>j. ProofRead (of_nat j)) (batchWindow (unat (increment c)) 0)
        @ fst (publishBatch e k c (batchOf e c) (of_nat (batchLow (unat (increment c)) 0))),
      snd (publishBatch e k c (batchOf e c) (of_nat (batchLow (unat (increment c)) 0))))"
  using assms find_absent_None [of e "batchWindow (unat (increment c)) 0"]
  by (simp add: startBatch_closed batchClosed_def batchOf_def Let_def)

lemma startBatch_absent:
  assumes "find (\<lambda>j. \<not> present e j) (batchWindow (unat (increment c)) 0) = Some j"
  shows "startBatch e k c =
     (map (\<lambda>j. ProofRead (of_nat j))
        (takeWhile (present e) (batchWindow (unat (increment c)) 0))
        @ [ProofRead (of_nat j), Closed],
      Return (MissingProof (of_nat j)))"
  using assms by (simp add: startBatch_closed batchClosed_def)

lemma batchLow_lt: "n < 2 ^ 32 \<Longrightarrow> batchLow n b < 2 ^ 32"
  using batchLow_le [of n b] by simp

lemma publishBatch_ok:
  assumes "low < 2 ^ 32"
    and "SignMessage e (signingPayload ps) = Some sig"
    and "HandlePreMidnightMint e k ps (GetPublicKey e) sig = Some a'"
  shows "publishBatch e k c ps (of_nat low) =
     ([Signed (signingPayload ps), MintCalled ps (GetPublicKey e) sig, Closed],
      if low = 0 then Return Submitted
      else Again \<lparr>resume = a', increment = of_nat (low - 1)\<rparr>)"
proof -
  have z: "((of_nat low :: go_int) = 0) = (low = 0)"
    using assms(1) by (rule of_nat_64_eq_0)
  have u: "(ucast (of_nat low :: go_int) :: uint32) = of_nat low"
    using assms(1) by (rule ucast_of_nat_64_32)
  have "(of_nat low :: uint32) - 1 = of_nat (low - 1)" if "low \<noteq> 0"
    using that by (cases low) simp_all
  then show ?thesis
    using assms(2,3) by (simp add: publishBatch_def z u del: of_nat_diff)
qed

lemma session_publishes:
  assumes "GetDirectChannel e k p" and "resume c \<noteq> replicate 32 0"
    and "\<forall>j\<in>set (batchWindow (unat (increment c)) 0). present e j"
    and "SignMessage e (signingPayload (batchOf e c)) = Some sig"
    and "HandlePreMidnightMint e k (batchOf e c) (GetPublicKey e) sig = Some a'"
  shows "session e p a k c =
     (Opened p # map (\<lambda>j. ProofRead (of_nat j)) (batchWindow (unat (increment c)) 0)
        @ [Signed (signingPayload (batchOf e c)),
           MintCalled (batchOf e c) (GetPublicKey e) sig, Closed],
      if batchLow (unat (increment c)) 0 = 0 then Return Submitted
      else Again \<lparr>resume = a', increment = of_nat (batchLow (unat (increment c)) 0 - 1)\<rparr>)"
proof -
  have "batchLow (unat (increment c)) 0 < 2 ^ 32"
    by (rule batchLow_lt [OF unat_32_lt])
  from publishBatch_ok [OF this assms(4,5), of c]
  show ?thesis
    using assms(1,2) by (simp add: session_def startBatch_all_present [OF assms(3)])
qed

section \<open>The successive sessions read the whole range\<close>

lemma map_unat_of_nat:
  "\<forall>j\<in>set xs. j < 2 ^ 32 \<Longrightarrow> map unat (map (of_nat :: nat \<Rightarrow> uint32) xs) = xs"
  by (induction xs) (simp_all add: unat_of_nat_32)

lemma batchWindow_lt: "n < 2 ^ 32 \<Longrightarrow> \<forall>j\<in>set (batchWindow n b). j < 2 ^ 32"
  using set_batchWindow [of _ n b] by fastforce

lemma batchLow_small: "n < 200 \<Longrightarrow> batchLow n 0 = 0"
  by (simp add: batchLow_def)

lemma batchLow_large: "200 \<le> n \<Longrightarrow> batchLow n 0 = n - 199"
  by (simp add: batchLow_def)

lemma sessionLoop_submits_all:
  assumes chan: "\<forall>k. GetDirectChannel e k p"
    and sign: "\<forall>pl. SignMessage e pl \<noteq> None"
    and mint: "\<forall>k ps pk sig. HandlePreMidnightMint e k ps pk sig \<noteq> None
                 \<and> HandlePreMidnightMint e k ps pk sig \<noteq> Some (replicate 32 0)"
    and pres: "\<forall>j \<le> unat (increment c). present e j"
    and res: "resume c \<noteq> replicate 32 0"
    and fuel: "unat (increment c) div 200 < fuel"
  shows "snd (sessionLoop fuel e p a k c) = Some Submitted
     \<and> map unat (readsOf (fst (sessionLoop fuel e p a k c)))
         = rev [0 ..< Suc (unat (increment c))]"
  using pres res fuel
proof (induction "unat (increment c)" arbitrary: c k fuel rule: less_induct)
  case less
  let ?n = "unat (increment c)"
  let ?w = "batchWindow ?n 0"
  obtain f where f: "fuel = Suc f" using less.prems(3) by (cases fuel) auto
  have n: "?n < 2 ^ 32" by (rule unat_32_lt)
  have w: "\<forall>j\<in>set ?w. present e j"
    using less.prems(1) set_batchWindow [of _ ?n 0] by blast
  obtain sig where sig: "SignMessage e (signingPayload (batchOf e c)) = Some sig"
    using sign by blast
  obtain a' where a': "HandlePreMidnightMint e k (batchOf e c) (GetPublicKey e) sig = Some a'"
    and a'n: "a' \<noteq> replicate 32 0"
    using mint by (metis not_None_eq)
  note s = session_publishes [OF chan [rule_format] less.prems(2) w sig a', where a = a]
  have rd: "map unat (readsOf (fst (session e p a k c))) = ?w"
    using map_unat_of_nat [OF batchWindow_lt [OF n, of 0]]
    by (simp add: s readsOf_append readsOf_ProofReads)
  show ?case
  proof (cases "?n < 200")
    case True
    then have low: "batchLow ?n 0 = 0" by (rule batchLow_small)
    have "?w = rev [0 ..< Suc ?n]" by (simp add: batchWindow_def low)
    with rd show ?thesis
      unfolding f by (simp add: s low)
  next
    case False
    then have low: "batchLow ?n 0 = ?n - 199" by (simp add: batchLow_large)
    define c' where "c' = \<lparr>resume = a', increment = of_nat (?n - 200)\<rparr>"
    have un: "unat (increment c') = ?n - 200"
      using n by (simp add: c'_def unat_of_nat_32)
    have flow: "snd (session e p a k c) = Again c'"
      using False by (simp add: s low c'_def)
    have lt: "unat (increment c') < ?n" using False un by simp
    have ih: "snd (sessionLoop f e p a (Suc k) c') = Some Submitted
        \<and> map unat (readsOf (fst (sessionLoop f e p a (Suc k) c')))
            = rev [0 ..< Suc (unat (increment c'))]"
    proof (rule less.hyps [OF lt])
      show "\<forall>j \<le> unat (increment c'). present e j" using less.prems(1) un by simp
      show "resume c' \<noteq> replicate 32 0" using a'n by (simp add: c'_def)
      show "unat (increment c') div 200 < f"
        using less.prems(3) False unfolding f un by (simp add: le_div_geq)
    qed
    have w': "?w = rev [?n - 199 ..< Suc ?n]" by (simp add: batchWindow_def low)
    have cat: "rev [?n - 199 ..< Suc ?n] @ rev [0 ..< Suc (?n - 200)] = rev [0 ..< Suc ?n]"
    proof -
      have "Suc (?n - 200) = ?n - 199" using False by simp
      moreover have "[0 ..< ?n - 199] @ [?n - 199 ..< Suc ?n] = [0 ..< Suc ?n]"
      proof -
        have "Suc ?n = (?n - 199) + 200" using False by simp
        then show ?thesis
          using upt_add_eq_append [of 0 "?n - 199" 200] by simp
      qed
      ultimately show ?thesis by (simp flip: rev_append del: upt_Suc)
    qed
    obtain evs where evs: "session e p a k c = (evs, Again c')"
      using flow by (cases "session e p a k c") simp
    obtain evs' r where r: "sessionLoop f e p a (Suc k) c' = (evs', r)"
      by (cases "sessionLoop f e p a (Suc k) c'")
    show ?thesis
      using ih rd cat unfolding f
      by (simp add: evs r readsOf_append w' un)
  qed
qed

text \<open>
  C1. The inner loop goes down from the starting increment by one, with a loop variable
  that does not wrap: in any environment the increments read in one pass of the loop, as
  numbers, are \<open>n, n - 1, ...\<close>, at most 200 of them and never below 0; from increment 0
  the body runs once, for increment 0, and the pass is over; one less than 0 is a negative
  value of the loop variable, at which the loop stops; and when the collaborators
  answer, the passes of the successive sessions read exactly \<open>n, ..., 0\<close> and the worker
  returns.
\<close>

theorem inner_loop_descends_without_wrap:
  "(\<exists>m. 0 < m \<and> m \<le> min 200 (Suc (unat (increment c)))
        \<and> map unat (readsOf (fst (startBatch e k c)))
            = rev [Suc (unat (increment c)) - m ..< Suc (unat (increment c))])
   \<and> (increment c = 0 \<longrightarrow> readsOf (fst (startBatch e k c)) = [0])
   \<and> batchLoop e k c proofs batchCount (0 - 1) = ([Closed], Again c)
   \<and> ((\<forall>k. GetDirectChannel e k p) \<and> (\<forall>pl. SignMessage e pl \<noteq> None)
        \<and> (\<forall>k ps pk sig. HandlePreMidnightMint e k ps pk sig \<noteq> None
               \<and> HandlePreMidnightMint e k ps pk sig \<noteq> Some (replicate 32 0))
        \<and> (\<forall>j \<le> unat (increment c). present e j)
        \<and> resume c \<noteq> replicate 32 0 \<and> unat (increment c) div 200 < fuel
       \<longrightarrow> snd (sessionLoop fuel e p a k c) = Some Submitted
           \<and> map unat (readsOf (fst (sessionLoop fuel e p a k c)))
               = rev [0 ..< Suc (unat (increment c))])"
proof (intro conjI impI)
  show "\<exists>m. 0 < m \<and> m \<le> min 200 (Suc (unat (increment c)))
        \<and> map unat (readsOf (fst (startBatch e k c)))
            = rev [Suc (unat (increment c)) - m ..< Suc (unat (increment c))]"
    by (rule startBatch_reads_countdown)
next
  assume "increment c = 0"
  then show "readsOf (fst (startBatch e k c)) = [0]" by (rule startBatch_reads_zero)
next
  show "batchLoop e k c proofs batchCount (0 - 1) = ([Closed], Again c)"
    by (subst batchLoop.simps) (simp add: not_sle_minus1)
next
  assume h: "(\<forall>k. GetDirectChannel e k p) \<and> (\<forall>pl. SignMessage e pl \<noteq> None)
        \<and> (\<forall>k ps pk sig. HandlePreMidnightMint e k ps pk sig \<noteq> None
               \<and> HandlePreMidnightMint e k ps pk sig \<noteq> Some (replicate 32 0))
        \<and> (\<forall>j \<le> unat (increment c). present e j)
        \<and> resume c \<noteq> replicate 32 0 \<and> unat (increment c) div 200 < fuel"
  then have r: "snd (sessionLoop fuel e p a k c) = Some Submitted
     \<and> map unat (readsOf (fst (sessionLoop fuel e p a k c)))
         = rev [0 ..< Suc (unat (increment c))]"
    by (intro sessionLoop_submits_all) blast+
  from r show "snd (sessionLoop fuel e p a k c) = Some Submitted" ..
  from r show "map unat (readsOf (fst (sessionLoop fuel e p a k c)))
         = rev [0 ..< Suc (unat (increment c))]" ..
qed

theorem inner_loop_descends_without_wrap_witness:
  "readsOf (fst (startBatch sampleEnv 0 \<lparr>resume = replicate 32 2, increment = 0\<rparr>)) = [0]
   \<and> snd (sessionLoop 1 sampleEnv [9] [7] 0 \<lparr>resume = replicate 32 2, increment = 0\<rparr>)
       = Some Submitted
   \<and> snd (sessionLoop 3 sampleEnv [9] [7] 0 \<lparr>resume = replicate 32 2, increment = 450\<rparr>)
       = Some Submitted
   \<and> map unat (readsOf (fst
        (sessionLoop 3 sampleEnv [9] [7] 0 \<lparr>resume = replicate 32 2, increment = 450\<rparr>)))
       = rev [0 ..< 451]"
  using inner_loop_descends_without_wrap
      [where c = "\<lparr>resume = replicate 32 2, increment = 0\<rparr>" and e = sampleEnv
         and k = 0 and p = "[9]" and fuel = 1 and a = "[7]"]
    inner_loop_descends_without_wrap
      [where c = "\<lparr>resume = replicate 32 2, increment = 450\<rparr>" and e = sampleEnv
         and k = 0 and p = "[9]" and fuel = 3 and a = "[7]"]
  by (simp add: sampleEnv_def present_def del: upt_Suc)

section \<open>The events of a pass and of a session\<close>

lemma publishBatch_events:
  "fst (publishBatch e k c ps i) =
     (case SignMessage e (signingPayload ps) of
        None \<Rightarrow> [Signed (signingPayload ps), Closed]
      | Some sig \<Rightarrow>
          (case HandlePreMidnightMint e k ps (GetPublicKey e) sig of
             None \<Rightarrow> [Signed (signingPayload ps), MintCalled ps (GetPublicKey e) sig,
                       Closed, Slept, Closed]
           | Some a' \<Rightarrow> [Signed (signingPayload ps), MintCalled ps (GetPublicKey e) sig,
                         Closed]))"
  by (simp add: publishBatch_def Let_def split: option.splits)

lemma publishBatch_mint:
  "MintCalled ps' pk sig \<in> set (fst (publishBatch e k c ps i)) \<Longrightarrow>
     ps' = ps \<and> pk = GetPublicKey e \<and> SignMessage e (signingPayload ps) = Some sig"
  by (auto simp: publishBatch_events split: option.splits)

lemma publishBatch_signed:
  "Signed pl \<in> set (fst (publishBatch e k c ps i)) \<longleftrightarrow> pl = signingPayload ps"
  by (auto simp: publishBatch_events split: option.splits)

lemma publishBatch_again:
  assumes "snd (publishBatch e k c ps (of_nat low)) = Again c'" and "low < 2 ^ 32"
  shows "(c' = c \<and> Slept \<in> set (fst (publishBatch e k c ps (of_nat low))))
     \<or> (\<exists>sig a'. SignMessage e (signingPayload ps) = Some sig
           \<and> HandlePreMidnightMint e k ps (GetPublicKey e) sig = Some a'
           \<and> low \<noteq> 0 \<and> c' = \<lparr>resume = a', increment = of_nat (low - 1)\<rparr>)"
proof (cases "SignMessage e (signingPayload ps)")
  case None
  then show ?thesis using assms(1) by (simp add: publishBatch_def)
next
  case (Some sig)
  show ?thesis
  proof (cases "HandlePreMidnightMint e k ps (GetPublicKey e) sig")
    case None
    then show ?thesis using assms(1) Some by (simp add: publishBatch_def)
  next
    case (Some a')
    from publishBatch_ok [OF assms(2) \<open>SignMessage e (signingPayload ps) = Some sig\<close> Some, of c]
    show ?thesis using assms(1) Some \<open>SignMessage e (signingPayload ps) = Some sig\<close>
      by (auto split: if_splits)
  qed
qed

text \<open>Every pass of the inner loop, whatever the environment answers.\<close>

lemma startBatch_shape:
  obtains (absent) j where
      "find (\<lambda>j. \<not> present e j) (batchWindow (unat (increment c)) 0) = Some j"
      "startBatch e k c =
         (map (\<lambda>j. ProofRead (of_nat j))
            (takeWhile (present e) (batchWindow (unat (increment c)) 0))
            @ [ProofRead (of_nat j), Closed],
          Return (MissingProof (of_nat j)))"
  | (published)
      "\<forall>j\<in>set (batchWindow (unat (increment c)) 0). present e j"
      "startBatch e k c =
         (map (\<lambda>j. ProofRead (of_nat j)) (batchWindow (unat (increment c)) 0)
            @ fst (publishBatch e k c (batchOf e c) (of_nat (batchLow (unat (increment c)) 0))),
          snd (publishBatch e k c (batchOf e c) (of_nat (batchLow (unat (increment c)) 0))))"
proof (cases "find (\<lambda>j. \<not> present e j) (batchWindow (unat (increment c)) 0)")
  case None
  then have "\<forall>j\<in>set (batchWindow (unat (increment c)) 0). present e j"
    by (simp add: find_absent_None)
  then show ?thesis using startBatch_all_present published by blast
next
  case (Some j)
  then show ?thesis using startBatch_absent absent by blast
qed

lemma startBatch_mint:
  assumes "MintCalled ps pk sig \<in> set (fst (startBatch e k c))"
  shows "ps = batchOf e c \<and> pk = GetPublicKey e
     \<and> SignMessage e (signingPayload ps) = Some sig
     \<and> Signed (signingPayload ps) \<in> set (fst (startBatch e k c))
     \<and> (\<forall>j\<in>set (batchWindow (unat (increment c)) 0). present e j)"
proof (cases rule: startBatch_shape [of e c k])
  case (absent j)
  then show ?thesis using assms by auto
next
  case published
  then show ?thesis
    using assms publishBatch_mint [of ps pk sig e k c "batchOf e c"]
    by (auto simp: publishBatch_signed)
qed

lemma startBatch_signed:
  assumes "Signed pl \<in> set (fst (startBatch e k c))"
  shows "pl = signingPayload (batchOf e c)
     \<and> (\<forall>j\<in>set (batchWindow (unat (increment c)) 0). present e j)"
proof (cases rule: startBatch_shape [of e c k])
  case (absent j)
  then show ?thesis using assms by auto
next
  case published
  then show ?thesis using assms by (auto simp: publishBatch_signed)
qed

lemma startBatch_again:
  assumes "snd (startBatch e k c) = Again c'"
  shows "(\<forall>j\<in>set (batchWindow (unat (increment c)) 0). present e j)
     \<and> ((c' = c \<and> Slept \<in> set (fst (startBatch e k c)))
        \<or> (\<exists>sig a'. SignMessage e (signingPayload (batchOf e c)) = Some sig
              \<and> HandlePreMidnightMint e k (batchOf e c) (GetPublicKey e) sig = Some a'
              \<and> batchLow (unat (increment c)) 0 \<noteq> 0
              \<and> c' = \<lparr>resume = a',
                        increment = of_nat (batchLow (unat (increment c)) 0 - 1)\<rparr>))"
proof (cases rule: startBatch_shape [of e c k])
  case (absent j)
  then show ?thesis using assms by simp
next
  case published
  have "batchLow (unat (increment c)) 0 < 2 ^ 32" by (rule batchLow_lt [OF unat_32_lt])
  from publishBatch_again [OF _ this, of e k c "batchOf e c" c'] published assms
  show ?thesis by auto
qed

lemma session_shape:
  obtains (dial) "\<not> GetDirectChannel e k p"
      "session e p a k c = ([DialFailed p, Slept], Again c)"
  | (nostatus) "GetDirectChannel e k p" "resume c = replicate 32 0"
      "GetPreMidnightMintStatus e k a = None"
      "session e p a k c = ([Opened p, StatusCalled a, Slept, Closed], Again c)"
  | (fresh) status where "GetDirectChannel e k p" "resume c = replicate 32 0"
      "GetPreMidnightMintStatus e k a = Some status"
      "session e p a k c =
         (Opened p # StatusCalled a # fst (startBatch e k (adoptStatus status c)),
          snd (startBatch e k (adoptStatus status c)))"
  | (resumed) "GetDirectChannel e k p" "resume c \<noteq> replicate 32 0"
      "session e p a k c = (Opened p # fst (startBatch e k c), snd (startBatch e k c))"
proof (cases "GetDirectChannel e k p")
  case False
  then show ?thesis using dial by (simp add: session_def)
next
  case chan: True
  show ?thesis
  proof (cases "resume c = replicate 32 0")
    case False
    then show ?thesis using chan resumed by (simp add: session_def split: prod.splits)
  next
    case True
    then show ?thesis
      using chan nostatus fresh
      by (cases "GetPreMidnightMintStatus e k a") (simp_all add: session_def split: prod.splits)
  qed
qed

text \<open>The cursor a session builds its batch from, when it gets that far.\<close>

lemma session_mint:
  assumes "MintCalled ps pk sig \<in> set (fst (session e p a k c))"
  shows "\<exists>c0. (c0 = c \<and> resume c \<noteq> replicate 32 0
              \<or> (\<exists>status. GetPreMidnightMintStatus e k a = Some status
                    \<and> c0 = adoptStatus status c))
     \<and> ps = batchOf e c0 \<and> pk = GetPublicKey e
     \<and> SignMessage e (signingPayload ps) = Some sig
     \<and> Signed (signingPayload ps) \<in> set (fst (session e p a k c))
     \<and> (\<forall>j\<in>set (batchWindow (unat (increment c0)) 0). present e j)"
proof (cases rule: session_shape [of e k p a c])
  case dial
  then show ?thesis using assms by simp
next
  case nostatus
  then show ?thesis using assms by simp
next
  case (fresh status)
  then have "MintCalled ps pk sig \<in> set (fst (startBatch e k (adoptStatus status c)))"
    using assms by simp
  from startBatch_mint [OF this] fresh show ?thesis by auto
next
  case resumed
  then have "MintCalled ps pk sig \<in> set (fst (startBatch e k c))"
    using assms by simp
  from startBatch_mint [OF this] resumed show ?thesis by auto
qed

lemma session_signed:
  assumes "Signed pl \<in> set (fst (session e p a k c))"
  shows "\<exists>c0. (c0 = c \<and> resume c \<noteq> replicate 32 0
              \<or> (\<exists>status. GetPreMidnightMintStatus e k a = Some status
                    \<and> c0 = adoptStatus status c))
     \<and> pl = signingPayload (batchOf e c0)
     \<and> (\<forall>j\<in>set (batchWindow (unat (increment c0)) 0). present e j)"
proof (cases rule: session_shape [of e k p a c])
  case dial
  then show ?thesis using assms by simp
next
  case nostatus
  then show ?thesis using assms by simp
next
  case (fresh status)
  then have "Signed pl \<in> set (fst (startBatch e k (adoptStatus status c)))"
    using assms by simp
  from startBatch_signed [OF this] fresh show ?thesis by auto
next
  case resumed
  then have "Signed pl \<in> set (fst (startBatch e k c))"
    using assms by simp
  from startBatch_signed [OF this] resumed show ?thesis by auto
qed

text \<open>
  The resume token of the next session is the one of this session, or an address that the
  remote side returned in this session.
\<close>

lemma session_again_token:
  assumes "snd (session e p a k c) = Again c'"
  shows "resume c' = resume c
     \<or> (\<exists>status. GetPreMidnightMintStatus e k a = Some status \<and> resume c' = Address status)
     \<or> (\<exists>ps pk sig. HandlePreMidnightMint e k ps pk sig = Some (resume c'))"
proof (cases rule: session_shape [of e k p a c])
  case dial
  then show ?thesis using assms by simp
next
  case nostatus
  then show ?thesis using assms by simp
next
  case (fresh status)
  then have "snd (startBatch e k (adoptStatus status c)) = Again c'" using assms by simp
  from startBatch_again [OF this] fresh show ?thesis
    by (auto simp: adoptStatus_def)
next
  case resumed
  then have "snd (startBatch e k c) = Again c'" using assms by simp
  from startBatch_again [OF this] show ?thesis by auto
qed

section \<open>The outer loop and the whole worker\<close>

lemma sessionLoop_Return:
  "snd (session e p a k c) = Return r \<Longrightarrow>
     sessionLoop (Suc fuel) e p a k c = (fst (session e p a k c), Some r)"
  by (cases "session e p a k c") simp

lemma sessionLoop_Again:
  "snd (session e p a k c) = Again c' \<Longrightarrow>
     sessionLoop (Suc fuel) e p a k c =
       (fst (session e p a k c) @ fst (sessionLoop fuel e p a (Suc k) c'),
        snd (sessionLoop fuel e p a (Suc k) c'))"
  by (cases "session e p a k c") (simp split: prod.splits)

text \<open>
  Every event of the outer loop is an event of one of its sessions, and the resume token
  of that session is the sentinel or satisfies whatever holds of all addresses that the
  remote side returns.
\<close>

lemma sessionLoop_event:
  fixes T :: "bytes \<Rightarrow> bool"
  assumes st: "\<And>k status. GetPreMidnightMintStatus e k a = Some status \<Longrightarrow> T (Address status)"
    and mt: "\<And>k ps pk sig a'. HandlePreMidnightMint e k ps pk sig = Some a' \<Longrightarrow> T a'"
    and c: "resume c = replicate 32 0 \<or> T (resume c)"
    and ev: "ev \<in> set (fst (sessionLoop fuel e p a k c))"
  shows "\<exists>k' c'. (resume c' = replicate 32 0 \<or> T (resume c'))
     \<and> ev \<in> set (fst (session e p a k' c'))
     \<and> set (fst (session e p a k' c')) \<subseteq> set (fst (sessionLoop fuel e p a k c))"
  using c ev
proof (induction fuel arbitrary: k c)
  case 0
  then show ?case by simp
next
  case (Suc fuel)
  show ?case
  proof (cases "snd (session e p a k c)")
    case (Return r)
    then have "fst (sessionLoop (Suc fuel) e p a k c) = fst (session e p a k c)"
      by (simp only: sessionLoop_Return fst_conv)
    then show ?thesis using Suc.prems by auto
  next
    case (Again c')
    then have tr: "fst (sessionLoop (Suc fuel) e p a k c)
        = fst (session e p a k c) @ fst (sessionLoop fuel e p a (Suc k) c')"
      by (simp only: sessionLoop_Again fst_conv)
    show ?thesis
    proof (cases "ev \<in> set (fst (session e p a k c))")
      case True
      then show ?thesis using Suc.prems(1) tr by auto
    next
      case False
      then have ev': "ev \<in> set (fst (sessionLoop fuel e p a (Suc k) c'))"
        using Suc.prems(2) tr by simp
      have "resume c' = replicate 32 0 \<or> T (resume c')"
        using session_again_token [OF Again] Suc.prems(1) st mt by metis
      from Suc.IH [OF this ev'] show ?thesis using tr by auto
    qed
  qed
qed

lemma fst_waitForCollecting_Suc:
  "fst (waitForCollecting (Suc fuel) e k) =
     (if state e k < EngineStateCollecting e
      then Slept # fst (waitForCollecting fuel e (Suc k)) else [])"
  by (simp split: prod.splits)

lemma snd_waitForCollecting_Suc:
  "snd (waitForCollecting (Suc fuel) e k) =
     (if state e k < EngineStateCollecting e
      then snd (waitForCollecting fuel e (Suc k)) else Some ())"
  by (simp split: prod.splits)

lemma fst_checkAlreadyMinted_Suc:
  "fst (checkAlreadyMinted (Suc fuel) e a k) =
     (if GetFrameProverTries e k = 0
      then Slept # fst (checkAlreadyMinted fuel e a (Suc k)) else [])"
  by (simp split: prod.splits)

lemma snd_checkAlreadyMinted_Suc:
  "snd (checkAlreadyMinted (Suc fuel) e a k) =
     (if GetFrameProverTries e k = 0
      then snd (checkAlreadyMinted fuel e a (Suc k))
      else (case GetPreCoinProofsForOwner e a of (prfs, err) \<Rightarrow>
              if err \<noteq> None \<and> err \<noteq> Some ErrNotFound then Some (Stop FetchFailed)
              else if length prfs \<noteq> 0 then Some (Stop AlreadyCompleted)
              else Some Ready))"
  by (simp split: prod.splits)

lemma waitForCollecting_events: "set (fst (waitForCollecting fuel e k)) \<subseteq> {Slept}"
proof (induction fuel arbitrary: k)
  case 0
  show ?case by simp
next
  case (Suc fuel)
  show ?case using Suc [of "Suc k"] by (simp only: fst_waitForCollecting_Suc) auto
qed

lemma checkAlreadyMinted_events: "set (fst (checkAlreadyMinted fuel e a k)) \<subseteq> {Slept}"
proof (induction fuel arbitrary: k)
  case 0
  show ?case by simp
next
  case (Suc fuel)
  show ?case using Suc [of "Suc k"] by (simp only: fst_checkAlreadyMinted_Suc) auto
qed

text \<open>The worker, from the pieces: what each way out of the readiness gate gives.\<close>

lemma run_sessions:
  assumes "GetLatestDataTimeProof e = Inr latest"
    and "snd (waitForCollecting fuel e 0) = Some ()"
    and "selfAddress e = Some a" and "genesisBeaconPeerId e = Some p"
    and "snd (checkAlreadyMinted fuel e a 0) = Some Ready"
  shows "runPreMidnightProofWorker fuel e =
     (fst (waitForCollecting fuel e 0) @ fst (checkAlreadyMinted fuel e a 0)
        @ fst (sessionLoop fuel e p a 0 \<lparr>resume = replicate 32 0, increment = latest\<rparr>),
      snd (sessionLoop fuel e p a 0 \<lparr>resume = replicate 32 0, increment = latest\<rparr>))"
  using assms
  by (cases "waitForCollecting fuel e 0"; cases "checkAlreadyMinted fuel e a 0")
     (auto simp: runPreMidnightProofWorker_def selfAddress_def
      split: option.splits prod.splits)

lemma run_no_sessions:
  assumes "\<not> (\<exists>latest a p. GetLatestDataTimeProof e = Inr latest
      \<and> snd (waitForCollecting fuel e 0) = Some ()
      \<and> selfAddress e = Some a \<and> genesisBeaconPeerId e = Some p
      \<and> snd (checkAlreadyMinted fuel e a 0) = Some Ready)"
  shows "set (fst (runPreMidnightProofWorker fuel e)) \<subseteq> {Slept}"
proof -
  have w: "set (fst (waitForCollecting fuel e 0)) \<subseteq> {Slept}"
    by (rule waitForCollecting_events)
  have m: "set (fst (checkAlreadyMinted fuel e a 0)) \<subseteq> {Slept}" for a
    by (rule checkAlreadyMinted_events)
  show ?thesis
  proof (cases "GetLatestDataTimeProof e")
    case (Inl err)
    then show ?thesis
      by (cases err) (simp_all add: runPreMidnightProofWorker_def)
  next
    case (Inr latest)
    obtain evs1 r1 where r1: "waitForCollecting fuel e 0 = (evs1, r1)" by force
    show ?thesis
    proof (cases r1)
      case None
      then show ?thesis using w r1 Inr by (simp add: runPreMidnightProofWorker_def)
    next
      case (Some u)
      show ?thesis
      proof (cases "selfAddress e")
        case None
        then show ?thesis using w r1 Inr Some
          by (auto simp: runPreMidnightProofWorker_def selfAddress_def split: option.splits)
      next
        case a: (Some a)
        show ?thesis
        proof (cases "genesisBeaconPeerId e")
          case None
          then show ?thesis using w r1 Inr Some a
            by (auto simp: runPreMidnightProofWorker_def selfAddress_def split: option.splits)
        next
          case p: (Some p)
          obtain evs2 r2 where r2: "checkAlreadyMinted fuel e a 0 = (evs2, r2)" by force
          have "r2 \<noteq> Some Ready" using assms Inr r1 Some a p r2 by auto
          then show ?thesis using w m [of a] r1 r2 Inr Some a p
            by (auto simp: runPreMidnightProofWorker_def selfAddress_def
                split: option.splits gate.splits)
        qed
      qed
    qed
  qed
qed

lemma run_event:
  assumes "ev \<in> set (fst (runPreMidnightProofWorker fuel e))" and "ev \<noteq> Slept"
  shows "\<exists>p a latest. genesisBeaconPeerId e = Some p \<and> selfAddress e = Some a
     \<and> ev \<in> set (fst (sessionLoop fuel e p a 0 \<lparr>resume = replicate 32 0, increment = latest\<rparr>))
     \<and> set (fst (sessionLoop fuel e p a 0 \<lparr>resume = replicate 32 0, increment = latest\<rparr>))
         \<subseteq> set (fst (runPreMidnightProofWorker fuel e))"
proof -
  obtain latest a p where g: "GetLatestDataTimeProof e = Inr latest"
      "snd (waitForCollecting fuel e 0) = Some ()"
      "selfAddress e = Some a" "genesisBeaconPeerId e = Some p"
      "snd (checkAlreadyMinted fuel e a 0) = Some Ready"
    using run_no_sessions [of e fuel] assms by blast
  note r = run_sessions [OF g]
  have "ev \<in> set (fst (sessionLoop fuel e p a 0 \<lparr>resume = replicate 32 0, increment = latest\<rparr>))"
    using assms waitForCollecting_events [of fuel e 0] checkAlreadyMinted_events [of fuel e a 0]
    by (auto simp: r)
  then show ?thesis using g by (auto simp: r)
qed

section \<open>A run of one batch\<close>

lemma batchWindow_small: "n < 200 \<Longrightarrow> batchWindow n 0 = rev [0 ..< Suc n]"
  by (simp add: batchWindow_def batchLow_small)

text \<open>A first session that gets a status response and can publish its batch.\<close>

lemma session_fresh_publishes:
  assumes "GetDirectChannel e k p" and "resume c = replicate 32 0"
    and "GetPreMidnightMintStatus e k a = Some status"
    and "c0 = adoptStatus status c"
    and "\<forall>j\<in>set (batchWindow (unat (increment c0)) 0). present e j"
    and "SignMessage e (signingPayload (batchOf e c0)) = Some sig"
    and "HandlePreMidnightMint e k (batchOf e c0) (GetPublicKey e) sig = Some a'"
  shows "session e p a k c =
     (Opened p # StatusCalled a
        # map (\<lambda>j. ProofRead (of_nat j)) (batchWindow (unat (increment c0)) 0)
        @ [Signed (signingPayload (batchOf e c0)),
           MintCalled (batchOf e c0) (GetPublicKey e) sig, Closed],
      if batchLow (unat (increment c0)) 0 = 0 then Return Submitted
      else Again \<lparr>resume = a', increment = of_nat (batchLow (unat (increment c0)) 0 - 1)\<rparr>)"
proof -
  have "batchLow (unat (increment c0)) 0 < 2 ^ 32"
    by (rule batchLow_lt [OF unat_32_lt])
  from publishBatch_ok [OF this assms(6,7), of c0]
  show ?thesis
    using assms(1,2,3)
    by (simp add: session_def startBatch_all_present [OF assms(5)] assms(4) [symmetric])
qed

text \<open>The whole worker when nothing makes it wait and one batch holds all it has to send.\<close>

lemma run_one_batch:
  assumes latest: "GetLatestDataTimeProof e = Inr latest"
    and coll: "\<not> state e 0 < EngineStateCollecting e"
    and addr: "selfAddress e = Some a" and peer: "genesisBeaconPeerId e = Some p"
    and tries: "GetFrameProverTries e 0 \<noteq> 0"
    and own: "GetPreCoinProofsForOwner e a = ([], err)" "err = None \<or> err = Some ErrNotFound"
    and chan: "GetDirectChannel e 0 p"
    and stat: "GetPreMidnightMintStatus e 0 a = Some status"
    and c0: "c0 = adoptStatus status \<lparr>resume = replicate 32 0, increment = latest\<rparr>"
    and small: "unat (increment c0) < 200"
    and pres: "\<forall>j \<le> unat (increment c0). present e j"
    and sign: "SignMessage e (signingPayload (batchOf e c0)) = Some sig"
    and mint: "HandlePreMidnightMint e 0 (batchOf e c0) (GetPublicKey e) sig = Some a'"
  shows "runPreMidnightProofWorker (Suc fuel) e =
     (Opened p # StatusCalled a
        # map (\<lambda>j. ProofRead (of_nat j)) (rev [0 ..< Suc (unat (increment c0))])
        @ [Signed (signingPayload (batchOf e c0)),
           MintCalled (batchOf e c0) (GetPublicKey e) sig, Closed],
      Some Submitted)"
proof -
  have w: "batchWindow (unat (increment c0)) 0 = rev [0 ..< Suc (unat (increment c0))]"
    using small by (rule batchWindow_small)
  have pw: "\<forall>j\<in>set (batchWindow (unat (increment c0)) 0). present e j"
    using pres set_batchWindow [of _ "unat (increment c0)" 0] by blast
  have low: "batchLow (unat (increment c0)) 0 = 0" using small by (rule batchLow_small)
  have s: "session e p a 0 \<lparr>resume = replicate 32 0, increment = latest\<rparr> =
     (Opened p # StatusCalled a
        # map (\<lambda>j. ProofRead (of_nat j)) (rev [0 ..< Suc (unat (increment c0))])
        @ [Signed (signingPayload (batchOf e c0)),
           MintCalled (batchOf e c0) (GetPublicKey e) sig, Closed],
      Return Submitted)"
  proof -
    have "resume \<lparr>resume = replicate 32 0, increment = latest\<rparr> = replicate 32 0" by simp
    from session_fresh_publishes [OF chan this stat c0 pw sign mint]
    show ?thesis unfolding w low by simp
  qed
  have g: "snd (checkAlreadyMinted (Suc fuel) e a 0) = Some Ready"
    "fst (checkAlreadyMinted (Suc fuel) e a 0) = []"
    using own tries by auto
  have wc: "snd (waitForCollecting (Suc fuel) e 0) = Some ()"
    "fst (waitForCollecting (Suc fuel) e 0) = []"
    using coll by simp_all
  show ?thesis
    unfolding run_sessions [OF latest wc(1) addr peer g(1)] wc(2) g(2)
    by (simp only: sessionLoop_Return [of e p a 0 _ Submitted fuel] s snd_conv fst_conv append_Nil)
qed

lemma startBatch_first_event:
  "\<exists>rest. fst (startBatch e k c) = ProofRead (increment c) # rest"
proof -
  have "(of_nat (unat (increment c)) :: uint32) = increment c" by simp
  then show ?thesis
    unfolding startBatch_def ucast_32_64_unat
    by (subst batchLoop_of_nat [OF unat_32_lt])
       (auto simp: Let_def unsigned_eq_0_iff split: option.splits)
qed

lemma startBatch_no_status: "StatusCalled a \<notin> set (fst (startBatch e k c))"
  by (cases rule: startBatch_shape [of e c k]) (auto simp: publishBatch_events split: option.splits)

lemma startBatch_token:
  "MintCalled ps pk sig \<in> set (fst (startBatch e k c)) \<Longrightarrow>
     take 2 ps = [bytesOf ''pre-dusk'', resume c]"
  using startBatch_mint [of ps pk sig e k c] by (simp add: batchOf_def)

lemma status_three_run:
  assumes latest: "GetLatestDataTimeProof e = Inr 5"
    and stored: "\<forall>i \<le> 5. GetDataTimeProof e i \<noteq> None"
    and coll: "\<not> state e 0 < EngineStateCollecting e"
    and addr: "selfAddress e = Some a" and peer: "genesisBeaconPeerId e = Some p"
    and tries: "GetFrameProverTries e 0 \<noteq> 0"
    and own: "GetPreCoinProofsForOwner e a = ([], Some ErrNotFound)"
    and chan: "GetDirectChannel e 0 p"
    and stat: "GetPreMidnightMintStatus e 0 a = Some status" and three: "Increment status = 3"
    and sign: "SignMessage e (bytesOf ''mint'' @ concat
                 [bytesOf ''pre-dusk'', Address status,
                  framedEntry e 2, framedEntry e 1, framedEntry e 0]) = Some sig"
    and mint: "HandlePreMidnightMint e 0
                 [bytesOf ''pre-dusk'', Address status,
                  framedEntry e 2, framedEntry e 1, framedEntry e 0]
                 (GetPublicKey e) sig = Some a'"
  shows "runPreMidnightProofWorker (Suc fuel) e =
     ([Opened p, StatusCalled a, ProofRead 2, ProofRead 1, ProofRead 0,
       Signed (bytesOf ''mint'' @ concat
         [bytesOf ''pre-dusk'', Address status,
          framedEntry e 2, framedEntry e 1, framedEntry e 0]),
       MintCalled
         [bytesOf ''pre-dusk'', Address status,
          framedEntry e 2, framedEntry e 1, framedEntry e 0]
         (GetPublicKey e) sig,
       Closed],
      Some Submitted)"
proof -
  define c0 where "c0 = adoptStatus status \<lparr>resume = replicate 32 0, increment = 5\<rparr>"
  have c0: "c0 = \<lparr>resume = Address status, increment = 2\<rparr>"
    by (simp add: c0_def adoptStatus_def three)
  have n: "unat (increment c0) = 2" by (simp add: c0)
  have w: "rev [0 ..< Suc 2] = [2, 1, 0::nat]" by (simp add: upt_rec)
  have b: "batchOf e c0 = [bytesOf ''pre-dusk'', Address status,
                  framedEntry e 2, framedEntry e 1, framedEntry e 0]"
  proof -
    have "batchWindow 2 0 = [2, 1, 0]" by (simp add: batchWindow_small upt_rec)
    then show ?thesis by (simp add: batchOf_def n) (simp add: c0)
  qed
  have pres: "\<forall>j \<le> unat (increment c0). present e j"
  proof (intro allI impI)
    fix j assume "j \<le> unat (increment c0)"
    then have "j = 0 \<or> j = 1 \<or> j = 2" unfolding n by arith
    then have "(of_nat j :: uint32) \<le> 5" by auto
    then show "present e j" using stored by (simp add: present_def)
  qed
  have own': "None = None \<or> Some ErrNotFound = Some ErrNotFound" by simp
  have r: "runPreMidnightProofWorker (Suc fuel) e =
     (Opened p # StatusCalled a
        # map (\<lambda>j. ProofRead (of_nat j)) (rev [0 ..< Suc (unat (increment c0))])
        @ [Signed (signingPayload (batchOf e c0)),
           MintCalled (batchOf e c0) (GetPublicKey e) sig, Closed],
      Some Submitted)"
  proof (rule run_one_batch [OF latest coll addr peer tries own _ chan stat c0_def _ pres])
    show "Some ErrNotFound = None \<or> Some ErrNotFound = Some ErrNotFound" by simp
    show "unat (increment c0) < 200" by (simp add: n)
    show "SignMessage e (signingPayload (batchOf e c0)) = Some sig"
      using sign by (simp only: b signingPayload_eq)
    show "HandlePreMidnightMint e 0 (batchOf e c0) (GetPublicKey e) sig = Some a'"
      using mint by (simp only: b)
  qed
  show ?thesis
    unfolding r n w b signingPayload_eq by simp
qed

section \<open>The status response and the resumed session\<close>

lemma selfAddress_sample: "selfAddress sampleEnv = Some (bigEndian 32 7)"
  by (simp add: selfAddress_def sampleEnv_def FillBytes_def)

lemma selfAddress_scenario: "selfAddress scenarioEnv = Some (bigEndian 32 7)"
  by (simp add: selfAddress_def scenarioEnv_def sampleEnv_def FillBytes_def)

text \<open>
  C4. In a session that starts with the all-zero resume token and gets a status response,
  the cursor becomes the returned address and the returned increment less one (0 when
  the returned increment is 0): the batch loop starts from that cursor, its first read is
  at that increment, every batch it sends carries the returned address as its token, and
  the cursor that goes to the next session is that one unless a successful mint call has
  replaced it.
\<close>

theorem status_response_sets_cursor:
  assumes "resume c = replicate 32 0" and "GetDirectChannel e k p"
    and "GetPreMidnightMintStatus e k a = Some status"
  shows "session e p a k c =
       (Opened p # StatusCalled a
          # fst (startBatch e k
                  \<lparr>resume = Address status,
                   increment = (if Increment status \<noteq> 0 then Increment status - 1 else 0)\<rparr>),
        snd (startBatch e k
               \<lparr>resume = Address status,
                increment = (if Increment status \<noteq> 0 then Increment status - 1 else 0)\<rparr>))
     \<and> (\<exists>rest. fst (session e p a k c) =
           Opened p # StatusCalled a
             # ProofRead (if Increment status \<noteq> 0 then Increment status - 1 else 0) # rest)
     \<and> (\<forall>ps pk sig. MintCalled ps pk sig \<in> set (fst (session e p a k c))
           \<longrightarrow> take 2 ps = [bytesOf ''pre-dusk'', Address status])
     \<and> (\<forall>c'. snd (session e p a k c) = Again c'
           \<longrightarrow> c' = \<lparr>resume = Address status,
                     increment = (if Increment status \<noteq> 0 then Increment status - 1 else 0)\<rparr>
               \<or> (\<exists>ps pk sig. HandlePreMidnightMint e k ps pk sig = Some (resume c')))"
proof -
  let ?c = "\<lparr>resume = Address status,
             increment = (if Increment status \<noteq> 0 then Increment status - 1 else 0)\<rparr>"
  have ad: "adoptStatus status c = ?c" by (simp add: adoptStatus_def)
  have s: "session e p a k c =
       (Opened p # StatusCalled a # fst (startBatch e k ?c), snd (startBatch e k ?c))"
    using assms by (simp add: session_def ad split: prod.splits)
  obtain rest where rest: "fst (startBatch e k ?c) = ProofRead (increment ?c) # rest"
    using startBatch_first_event [of e k ?c] by blast
  have first: "\<exists>rest. fst (session e p a k c) =
           Opened p # StatusCalled a
             # ProofRead (if Increment status \<noteq> 0 then Increment status - 1 else 0) # rest"
    using rest by (simp add: s)
  have tok: "take 2 ps = [bytesOf ''pre-dusk'', Address status]"
    if "MintCalled ps pk sig \<in> set (fst (session e p a k c))" for ps pk sig
  proof -
    from that have "MintCalled ps pk sig \<in> set (fst (startBatch e k ?c))" by (simp add: s)
    from startBatch_token [OF this] show ?thesis by simp
  qed
  have nxt: "c' = ?c \<or> (\<exists>ps pk sig. HandlePreMidnightMint e k ps pk sig = Some (resume c'))"
    if "snd (session e p a k c) = Again c'" for c'
  proof -
    from that have "snd (startBatch e k ?c) = Again c'" by (simp add: s)
    from startBatch_again [OF this] show ?thesis by auto
  qed
  from s first tok nxt show ?thesis by blast
qed

theorem status_response_sets_cursor_witness:
  "session sampleEnv [9] [7] 0 \<lparr>resume = replicate 32 0, increment = 5\<rparr> =
     (Opened [9] # StatusCalled [7]
        # fst (startBatch sampleEnv 0 \<lparr>resume = replicate 32 1, increment = 2\<rparr>),
      snd (startBatch sampleEnv 0 \<lparr>resume = replicate 32 1, increment = 2\<rparr>))
   \<and> (\<exists>rest. fst (session sampleEnv [9] [7] 0 \<lparr>resume = replicate 32 0, increment = 5\<rparr>) =
         Opened [9] # StatusCalled [7] # ProofRead 2 # rest)"
proof -
  have h1: "resume \<lparr>resume = replicate 32 0, increment = 5\<rparr> = replicate 32 0" by simp
  have h2: "GetDirectChannel sampleEnv 0 [9]" by (simp add: sampleEnv_def)
  have h3: "GetPreMidnightMintStatus sampleEnv 0 [7]
              = Some \<lparr>Address = replicate 32 1, Increment = 3\<rparr>"
    by (simp add: sampleEnv_def)
  have h4: "(if Increment \<lparr>Address = replicate 32 1, Increment = 3\<rparr> \<noteq> 0
                then Increment \<lparr>Address = replicate 32 1, Increment = 3\<rparr> - 1 else 0) = 2"
    "Address \<lparr>Address = replicate 32 1, Increment = 3\<rparr> = replicate 32 1"
    by simp_all
  from status_response_sets_cursor [OF h1 h2 h3] show ?thesis unfolding h4 by blast
qed



section \<open>The scenario with records 0 to 5\<close>

lemma scenario_fields:
  "GetPublicKey scenarioEnv = [2]"
  "GetPreMidnightMintStatus scenarioEnv k a = Some \<lparr>Address = replicate 32 1, Increment = 3\<rparr>"
  "GetDataTimeProof scenarioEnv i = (if i \<le> 5 then Some (1, [10], [20]) else None)"
  by (simp_all add: scenarioEnv_def sampleEnv_def)

text \<open>
  C5 (as amended). With records at increments 0 to 5 and a status response that carries
  increment 3, the worker starts at increment 2, not 3: it reads 2, 1, 0, signs and sends
  one batch with the entries of 2, 1, 0 in that order, closes the channel and returns as
  done.
\<close>

theorem status_three_submits_two_one_zero:
  assumes "GetLatestDataTimeProof e = Inr 5"
    and "\<forall>i \<le> 5. GetDataTimeProof e i \<noteq> None"
    and "\<not> state e 0 < EngineStateCollecting e"
    and "selfAddress e = Some a" and "genesisBeaconPeerId e = Some p"
    and "GetFrameProverTries e 0 \<noteq> 0"
    and "GetPreCoinProofsForOwner e a = ([], Some ErrNotFound)"
    and "GetDirectChannel e 0 p"
    and "GetPreMidnightMintStatus e 0 a = Some status" and "Increment status = 3"
    and "SignMessage e (bytesOf ''mint'' @ concat
           [bytesOf ''pre-dusk'', Address status,
            framedEntry e 2, framedEntry e 1, framedEntry e 0]) = Some sig"
    and "HandlePreMidnightMint e 0
           [bytesOf ''pre-dusk'', Address status,
            framedEntry e 2, framedEntry e 1, framedEntry e 0]
           (GetPublicKey e) sig = Some a'"
  shows "runPreMidnightProofWorker (Suc fuel) e =
       ([Opened p, StatusCalled a, ProofRead 2, ProofRead 1, ProofRead 0,
         Signed (bytesOf ''mint'' @ concat
           [bytesOf ''pre-dusk'', Address status,
            framedEntry e 2, framedEntry e 1, framedEntry e 0]),
         MintCalled
           [bytesOf ''pre-dusk'', Address status,
            framedEntry e 2, framedEntry e 1, framedEntry e 0]
           (GetPublicKey e) sig,
         Closed],
        Some Submitted)
     \<and> readsOf (fst (runPreMidnightProofWorker (Suc fuel) e)) = [2, 1, 0]
     \<and> batchesOf (fst (runPreMidnightProofWorker (Suc fuel) e)) =
         [[bytesOf ''pre-dusk'', Address status,
           framedEntry e 2, framedEntry e 1, framedEntry e 0]]
     \<and> snd (runPreMidnightProofWorker (Suc fuel) e) = Some Submitted"
proof -
  have run: "runPreMidnightProofWorker (Suc fuel) e =
       ([Opened p, StatusCalled a, ProofRead 2, ProofRead 1, ProofRead 0,
         Signed (bytesOf ''mint'' @ concat
           [bytesOf ''pre-dusk'', Address status,
            framedEntry e 2, framedEntry e 1, framedEntry e 0]),
         MintCalled
           [bytesOf ''pre-dusk'', Address status,
            framedEntry e 2, framedEntry e 1, framedEntry e 0]
           (GetPublicKey e) sig,
         Closed],
        Some Submitted)"
    using assms by (rule status_three_run)
  have "readsOf (fst (runPreMidnightProofWorker (Suc fuel) e)) = [2, 1, 0]"
    unfolding run by simp
  moreover have "batchesOf (fst (runPreMidnightProofWorker (Suc fuel) e)) =
         [[bytesOf ''pre-dusk'', Address status,
           framedEntry e 2, framedEntry e 1, framedEntry e 0]]"
    unfolding run by simp
  moreover have "snd (runPreMidnightProofWorker (Suc fuel) e) = Some Submitted"
    unfolding run by simp
  ultimately show ?thesis using run by blast
qed

theorem status_three_submits_two_one_zero_witness:
  "runPreMidnightProofWorker (Suc 0) scenarioEnv =
     ([Opened [9], StatusCalled (bigEndian 32 7), ProofRead 2, ProofRead 1, ProofRead 0,
       Signed (bytesOf ''mint'' @ concat
         [bytesOf ''pre-dusk'', replicate 32 1,
          framedEntry scenarioEnv 2, framedEntry scenarioEnv 1, framedEntry scenarioEnv 0]),
       MintCalled
         [bytesOf ''pre-dusk'', replicate 32 1,
          framedEntry scenarioEnv 2, framedEntry scenarioEnv 1, framedEntry scenarioEnv 0]
         [2] [170],
       Closed],
      Some Submitted)
   \<and> readsOf (fst (runPreMidnightProofWorker (Suc 0) scenarioEnv)) = [2, 1, 0]"
proof -
  have "runPreMidnightProofWorker (Suc 0) scenarioEnv =
       ([Opened [9], StatusCalled (bigEndian 32 7), ProofRead 2, ProofRead 1, ProofRead 0,
         Signed (bytesOf ''mint'' @ concat
           [bytesOf ''pre-dusk'', Address \<lparr>Address = replicate 32 1, Increment = 3\<rparr>,
            framedEntry scenarioEnv 2, framedEntry scenarioEnv 1, framedEntry scenarioEnv 0]),
         MintCalled
           [bytesOf ''pre-dusk'', Address \<lparr>Address = replicate 32 1, Increment = 3\<rparr>,
            framedEntry scenarioEnv 2, framedEntry scenarioEnv 1, framedEntry scenarioEnv 0]
           (GetPublicKey scenarioEnv) [170],
         Closed],
        Some Submitted)
     \<and> readsOf (fst (runPreMidnightProofWorker (Suc 0) scenarioEnv)) = [2, 1, 0]
     \<and> batchesOf (fst (runPreMidnightProofWorker (Suc 0) scenarioEnv)) =
         [[bytesOf ''pre-dusk'', Address \<lparr>Address = replicate 32 1, Increment = 3\<rparr>,
           framedEntry scenarioEnv 2, framedEntry scenarioEnv 1, framedEntry scenarioEnv 0]]
     \<and> snd (runPreMidnightProofWorker (Suc 0) scenarioEnv) = Some Submitted"
    by (rule status_three_submits_two_one_zero [OF _ _ _ selfAddress_scenario])
       (simp_all add: scenarioEnv_def sampleEnv_def)
  then show ?thesis by (simp add: scenario_fields)
qed

text \<open>
  C5 as the spec words it fails on the scenario: records 0 to 5 are stored and the
  status response carries increment 3, yet increment 3 is never read and the one batch
  sent has the entries of 2, 1, 0, not those of 3, 2, 1, 0.
\<close>

theorem status_three_counterexample:
  "list_all (\<lambda>i. GetDataTimeProof scenarioEnv i = Some (1, [10], [20])) [0, 1, 2, 3, 4, 5]
   \<and> GetPreMidnightMintStatus scenarioEnv 0 (bigEndian 32 7)
       = Some \<lparr>Address = replicate 32 1, Increment = 3\<rparr>
   \<and> snd (runPreMidnightProofWorker (Suc 0) scenarioEnv) = Some Submitted
   \<and> readsOf (fst (runPreMidnightProofWorker (Suc 0) scenarioEnv)) = [2, 1, 0]
   \<and> batchesOf (fst (runPreMidnightProofWorker (Suc 0) scenarioEnv)) =
       [[bytesOf ''pre-dusk'', replicate 32 1,
         framedEntry scenarioEnv 2, framedEntry scenarioEnv 1, framedEntry scenarioEnv 0]]
   \<and> batchesOf (fst (runPreMidnightProofWorker (Suc 0) scenarioEnv)) \<noteq>
       [[bytesOf ''pre-dusk'', replicate 32 1,
         framedEntry scenarioEnv 3, framedEntry scenarioEnv 2,
         framedEntry scenarioEnv 1, framedEntry scenarioEnv 0]]"
proof -
  have "runPreMidnightProofWorker (Suc 0) scenarioEnv =
     ([Opened [9], StatusCalled (bigEndian 32 7), ProofRead 2, ProofRead 1, ProofRead 0,
       Signed (bytesOf ''mint'' @ concat
         [bytesOf ''pre-dusk'', Address \<lparr>Address = replicate 32 1, Increment = 3\<rparr>,
          framedEntry scenarioEnv 2, framedEntry scenarioEnv 1, framedEntry scenarioEnv 0]),
       MintCalled
         [bytesOf ''pre-dusk'', Address \<lparr>Address = replicate 32 1, Increment = 3\<rparr>,
          framedEntry scenarioEnv 2, framedEntry scenarioEnv 1, framedEntry scenarioEnv 0]
         (GetPublicKey scenarioEnv) [170],
       Closed],
      Some Submitted)"
    by (rule status_three_run [OF _ _ _ selfAddress_scenario])
       (simp_all add: scenarioEnv_def sampleEnv_def)
  then have r: "runPreMidnightProofWorker (Suc 0) scenarioEnv =
     ([Opened [9], StatusCalled (bigEndian 32 7), ProofRead 2, ProofRead 1, ProofRead 0,
       Signed (bytesOf ''mint'' @ concat
         [bytesOf ''pre-dusk'', replicate 32 1,
          framedEntry scenarioEnv 2, framedEntry scenarioEnv 1, framedEntry scenarioEnv 0]),
       MintCalled
         [bytesOf ''pre-dusk'', replicate 32 1,
          framedEntry scenarioEnv 2, framedEntry scenarioEnv 1, framedEntry scenarioEnv 0]
         [2] [170],
       Closed],
      Some Submitted)"
    by (simp add: scenario_fields)
  have "list_all (\<lambda>i. GetDataTimeProof scenarioEnv i = Some (1, [10], [20]))
          [0, 1, 2, 3, 4, 5]"
    by (simp add: scenario_fields)
  then show ?thesis unfolding r by (simp add: scenario_fields)
qed

section \<open>Batches: framing and size\<close>

text \<open>
  Every batch that any run of the worker signs or sends is the batch of some cursor whose
  token the remote side returned, built when every record of its window was there.
\<close>

lemma run_batch_cursor:
  fixes T :: "bytes \<Rightarrow> bool"
  assumes st: "\<And>k a status. GetPreMidnightMintStatus e k a = Some status \<Longrightarrow> T (Address status)"
    and mt: "\<And>k ps pk sig a'. HandlePreMidnightMint e k ps pk sig = Some a' \<Longrightarrow> T a'"
    and ev: "ev \<in> set (fst (runPreMidnightProofWorker fuel e))"
    and kind: "ev = Signed pl \<or> ev = MintCalled ps pk sig \<and> pl = signingPayload ps"
  shows "\<exists>c0. T (resume c0) \<and> pl = signingPayload (batchOf e c0)
     \<and> (\<forall>j\<in>set (batchWindow (unat (increment c0)) 0). present e j)
     \<and> (ev = MintCalled ps pk sig \<longrightarrow>
          ps = batchOf e c0 \<and> pk = GetPublicKey e
          \<and> SignMessage e (signingPayload ps) = Some sig
          \<and> Signed (signingPayload ps) \<in> set (fst (runPreMidnightProofWorker fuel e)))"
proof -
  have "ev \<noteq> Slept" using kind by auto
  from run_event [OF ev this] obtain p a latest where
    loop: "ev \<in> set (fst (sessionLoop fuel e p a 0 \<lparr>resume = replicate 32 0, increment = latest\<rparr>))"
    and sub: "set (fst (sessionLoop fuel e p a 0 \<lparr>resume = replicate 32 0, increment = latest\<rparr>))
         \<subseteq> set (fst (runPreMidnightProofWorker fuel e))"
    by blast
  have "\<exists>k' c'. (resume c' = replicate 32 0 \<or> T (resume c'))
     \<and> ev \<in> set (fst (session e p a k' c'))
     \<and> set (fst (session e p a k' c'))
         \<subseteq> set (fst (sessionLoop fuel e p a 0 \<lparr>resume = replicate 32 0, increment = latest\<rparr>))"
  proof (rule sessionLoop_event [where T = T])
    show "T (Address status)" if "GetPreMidnightMintStatus e k a = Some status" for k status
      using that by (rule st)
    show "T a'" if "HandlePreMidnightMint e k ps pk sig = Some a'" for k ps pk sig a'
      using that by (rule mt)
    show "resume \<lparr>resume = replicate 32 0, increment = latest\<rparr> = replicate 32 0
      \<or> T (resume \<lparr>resume = replicate 32 0, increment = latest\<rparr>)" by simp
    show "ev \<in> set (fst (sessionLoop fuel e p a 0 \<lparr>resume = replicate 32 0, increment = latest\<rparr>))"
      by (rule loop)
  qed
  then obtain k' c' where
    inv: "resume c' = replicate 32 0 \<or> T (resume c')"
    and sess: "ev \<in> set (fst (session e p a k' c'))"
    and sub': "set (fst (session e p a k' c'))
         \<subseteq> set (fst (sessionLoop fuel e p a 0 \<lparr>resume = replicate 32 0, increment = latest\<rparr>))"
    by blast
  have tok: "T (resume c0)"
    if "c0 = c' \<and> resume c' \<noteq> replicate 32 0
        \<or> (\<exists>status. GetPreMidnightMintStatus e k' a = Some status \<and> c0 = adoptStatus status c')"
    for c0
    using that inv st by (auto simp: adoptStatus_def)
  from kind show ?thesis
  proof
    assume s: "ev = Signed pl"
    from session_signed [OF sess [unfolded s]] tok s show ?thesis by blast
  next
    assume m: "ev = MintCalled ps pk sig \<and> pl = signingPayload ps"
    then have "MintCalled ps pk sig \<in> set (fst (session e p a k' c'))" using sess by simp
    from session_mint [OF this] obtain c0 where
      c0: "c0 = c' \<and> resume c' \<noteq> replicate 32 0
        \<or> (\<exists>status. GetPreMidnightMintStatus e k' a = Some status \<and> c0 = adoptStatus status c')"
      and b: "ps = batchOf e c0" "pk = GetPublicKey e"
        "SignMessage e (signingPayload ps) = Some sig"
        "Signed (signingPayload ps) \<in> set (fst (session e p a k' c'))"
        "\<forall>j\<in>set (batchWindow (unat (increment c0)) 0). present e j"
      by blast
    have "Signed (signingPayload ps) \<in> set (fst (runPreMidnightProofWorker fuel e))"
      using b(4) sub sub' by blast
    with tok [OF c0] b m show ?thesis by blast
  qed
qed

lemma framedEntry_spec:
  "GetDataTimeProof e (of_nat j) = Some (parallelism, inp, outp) \<Longrightarrow>
     framedEntry e j =
       bigEndianUint32 (of_nat j) @ bigEndianUint32 parallelism
         @ bigEndianUint64 (of_nat (length inp)) @ inp
         @ bigEndianUint64 (of_nat (length outp)) @ outp"
  by (simp add: framedEntry_def specFrame_def)

text \<open>
  C3. Every batch that the worker sends is, in order, the tag \<open>pre-dusk\<close>, the resume
  token as one entry (32 bytes when the remote side keeps to its interface), and the
  framed entries of records that are in the store; the entry of the record at increment
  \<open>j\<close> is \<open>uint32(j) || uint32(parallelism) || uint64(len(input)) || input ||
  uint64(len(output)) || output\<close>, big-endian. Every payload that is signed is \<open>mint\<close>
  followed by the entries of such a batch in their order, and the signature sent with a
  batch is the one obtained for that payload.
\<close>

theorem batch_wire_framing:
  assumes "\<forall>k a status. GetPreMidnightMintStatus e k a = Some status
             \<longrightarrow> length (Address status) = 32"
    and "\<forall>k ps pk sig a'. HandlePreMidnightMint e k ps pk sig = Some a' \<longrightarrow> length a' = 32"
  shows "(\<forall>pl. Signed pl \<in> set (fst (runPreMidnightProofWorker fuel e)) \<longrightarrow>
            (\<exists>tok w. length tok = 32 \<and> (\<forall>j\<in>set w. j < 2 ^ 32 \<and> present e j)
               \<and> pl = bytesOf ''mint''
                    @ concat (bytesOf ''pre-dusk'' # tok # map (framedEntry e) w)))
     \<and> (\<forall>ps pk sig. MintCalled ps pk sig \<in> set (fst (runPreMidnightProofWorker fuel e)) \<longrightarrow>
            (\<exists>tok w. length tok = 32 \<and> (\<forall>j\<in>set w. j < 2 ^ 32 \<and> present e j)
               \<and> ps = bytesOf ''pre-dusk'' # tok # map (framedEntry e) w)
            \<and> pk = GetPublicKey e
            \<and> SignMessage e (bytesOf ''mint'' @ concat ps) = Some sig
            \<and> Signed (bytesOf ''mint'' @ concat ps)
                 \<in> set (fst (runPreMidnightProofWorker fuel e)))
     \<and> (\<forall>j parallelism inp outp.
            GetDataTimeProof e (of_nat j) = Some (parallelism, inp, outp) \<longrightarrow>
            framedEntry e j =
              bigEndianUint32 (of_nat j) @ bigEndianUint32 parallelism
                @ bigEndianUint64 (of_nat (length inp)) @ inp
                @ bigEndianUint64 (of_nat (length outp)) @ outp)"
proof (intro conjI allI impI)
  fix pl assume "Signed pl \<in> set (fst (runPreMidnightProofWorker fuel e))"
  from run_batch_cursor [where T = "\<lambda>t. length t = 32" and ev = "Signed pl" and pl = pl,
      OF _ _ this]
  obtain c0 where c0: "length (resume c0) = 32" "pl = signingPayload (batchOf e c0)"
      "\<forall>j\<in>set (batchWindow (unat (increment c0)) 0). present e j"
    using assms by blast
  have "\<forall>j\<in>set (batchWindow (unat (increment c0)) 0). j < 2 ^ 32 \<and> present e j"
    using c0(3) batchWindow_lt [OF unat_32_lt, of "increment c0" 0] by blast
  then show "\<exists>tok w. length tok = 32 \<and> (\<forall>j\<in>set w. j < 2 ^ 32 \<and> present e j)
               \<and> pl = bytesOf ''mint''
                    @ concat (bytesOf ''pre-dusk'' # tok # map (framedEntry e) w)"
    using c0(1,2) unfolding signingPayload_eq batchOf_def by blast
next
  fix ps pk sig assume m: "MintCalled ps pk sig \<in> set (fst (runPreMidnightProofWorker fuel e))"
  from run_batch_cursor [where T = "\<lambda>t. length t = 32" and ev = "MintCalled ps pk sig"
      and pl = "signingPayload ps" and ps = ps and pk = pk and sig = sig, OF _ _ this]
  obtain c0 where c0: "length (resume c0) = 32"
      "\<forall>j\<in>set (batchWindow (unat (increment c0)) 0). present e j"
      "ps = batchOf e c0" "pk = GetPublicKey e"
      "SignMessage e (signingPayload ps) = Some sig"
      "Signed (signingPayload ps) \<in> set (fst (runPreMidnightProofWorker fuel e))"
    using assms by blast
  have "\<forall>j\<in>set (batchWindow (unat (increment c0)) 0). j < 2 ^ 32 \<and> present e j"
    using c0(2) batchWindow_lt [OF unat_32_lt, of "increment c0" 0] by blast
  then show "\<exists>tok w. length tok = 32 \<and> (\<forall>j\<in>set w. j < 2 ^ 32 \<and> present e j)
               \<and> ps = bytesOf ''pre-dusk'' # tok # map (framedEntry e) w"
    using c0(1,3) unfolding batchOf_def by blast
  show "pk = GetPublicKey e" by (rule c0(4))
  show "SignMessage e (bytesOf ''mint'' @ concat ps) = Some sig"
    using c0(5) by (simp only: signingPayload_eq)
  show "Signed (bytesOf ''mint'' @ concat ps) \<in> set (fst (runPreMidnightProofWorker fuel e))"
    using c0(6) by (simp only: signingPayload_eq)
next
  fix j parallelism inp outp
  assume "GetDataTimeProof e (of_nat j) = Some (parallelism, inp, outp)"
  then show "framedEntry e j =
              bigEndianUint32 (of_nat j) @ bigEndianUint32 parallelism
                @ bigEndianUint64 (of_nat (length inp)) @ inp
                @ bigEndianUint64 (of_nat (length outp)) @ outp"
    by (rule framedEntry_spec)
qed

lemma sample_fields:
  "GetPublicKey sampleEnv = [2]"
  "GetPreMidnightMintStatus sampleEnv k a = Some \<lparr>Address = replicate 32 1, Increment = 3\<rparr>"
  "GetDataTimeProof sampleEnv i = Some (1, [10], [20])"
  "SignMessage sampleEnv pl = Some [170]"
  "HandlePreMidnightMint sampleEnv k ps pk sig = Some (replicate 32 2)"
  "GetDirectChannel sampleEnv k p"
  by (simp_all add: sampleEnv_def)

lemma sample_run:
  "runPreMidnightProofWorker (Suc 0) sampleEnv =
     ([Opened [9], StatusCalled (bigEndian 32 7), ProofRead 2, ProofRead 1, ProofRead 0,
       Signed (bytesOf ''mint'' @ concat
         [bytesOf ''pre-dusk'', replicate 32 1,
          framedEntry sampleEnv 2, framedEntry sampleEnv 1, framedEntry sampleEnv 0]),
       MintCalled
         [bytesOf ''pre-dusk'', replicate 32 1,
          framedEntry sampleEnv 2, framedEntry sampleEnv 1, framedEntry sampleEnv 0]
         [2] [170],
       Closed],
      Some Submitted)"
proof -
  have "runPreMidnightProofWorker (Suc 0) sampleEnv =
     ([Opened [9], StatusCalled (bigEndian 32 7), ProofRead 2, ProofRead 1, ProofRead 0,
       Signed (bytesOf ''mint'' @ concat
         [bytesOf ''pre-dusk'', Address \<lparr>Address = replicate 32 1, Increment = 3\<rparr>,
          framedEntry sampleEnv 2, framedEntry sampleEnv 1, framedEntry sampleEnv 0]),
       MintCalled
         [bytesOf ''pre-dusk'', Address \<lparr>Address = replicate 32 1, Increment = 3\<rparr>,
          framedEntry sampleEnv 2, framedEntry sampleEnv 1, framedEntry sampleEnv 0]
         (GetPublicKey sampleEnv) [170],
       Closed],
      Some Submitted)"
    by (rule status_three_run [OF _ _ _ selfAddress_sample])
       (simp_all add: sampleEnv_def)
  then show ?thesis by (simp add: sample_fields)
qed

theorem batch_wire_framing_witness:
  "MintCalled
      [bytesOf ''pre-dusk'', replicate 32 1,
       framedEntry sampleEnv 2, framedEntry sampleEnv 1, framedEntry sampleEnv 0]
      [2] [170]
     \<in> set (fst (runPreMidnightProofWorker (Suc 0) sampleEnv))
   \<and> (\<exists>tok w. length tok = 32 \<and> (\<forall>j\<in>set w. j < 2 ^ 32 \<and> present sampleEnv j)
        \<and> [bytesOf ''pre-dusk'', replicate 32 1,
            framedEntry sampleEnv 2, framedEntry sampleEnv 1, framedEntry sampleEnv 0]
           = bytesOf ''pre-dusk'' # tok # map (framedEntry sampleEnv) w)
   \<and> SignMessage sampleEnv (bytesOf ''mint'' @ concat
         [bytesOf ''pre-dusk'', replicate 32 1,
          framedEntry sampleEnv 2, framedEntry sampleEnv 1, framedEntry sampleEnv 0])
       = Some [170]
   \<and> framedEntry sampleEnv 2 =
       bigEndianUint32 2 @ bigEndianUint32 1 @ bigEndianUint64 1 @ [10]
         @ bigEndianUint64 1 @ [20]"
proof -
  have h1: "\<forall>k a status. GetPreMidnightMintStatus sampleEnv k a = Some status
             \<longrightarrow> length (Address status) = 32"
    by (auto simp: sample_fields)
  have h2: "\<forall>k ps pk sig a'. HandlePreMidnightMint sampleEnv k ps pk sig = Some a'
             \<longrightarrow> length a' = 32"
    by (auto simp: sample_fields)
  have m: "MintCalled
      [bytesOf ''pre-dusk'', replicate 32 1,
       framedEntry sampleEnv 2, framedEntry sampleEnv 1, framedEntry sampleEnv 0]
      [2] [170]
     \<in> set (fst (runPreMidnightProofWorker (Suc 0) sampleEnv))"
    by (simp add: sample_run)
  have g: "GetDataTimeProof sampleEnv (of_nat 2) = Some (1, [10], [20])"
    by (simp add: sample_fields)
  note t = batch_wire_framing [OF h1 h2, of "Suc 0"]
  from t m have "\<exists>tok w. length tok = 32 \<and> (\<forall>j\<in>set w. j < 2 ^ 32 \<and> present sampleEnv j)
        \<and> [bytesOf ''pre-dusk'', replicate 32 1,
            framedEntry sampleEnv 2, framedEntry sampleEnv 1, framedEntry sampleEnv 0]
           = bytesOf ''pre-dusk'' # tok # map (framedEntry sampleEnv) w"
    by blast
  moreover from t g have "framedEntry sampleEnv 2 =
       bigEndianUint32 (of_nat 2) @ bigEndianUint32 1 @ bigEndianUint64 (of_nat (length [10::byte]))
         @ [10] @ bigEndianUint64 (of_nat (length [20::byte])) @ [20]"
    by blast
  ultimately show ?thesis using m by (simp add: sample_fields)
qed








section \<open>An absent record\<close>

lemma publishBatch_no_read: "ProofRead i \<notin> set (fst (publishBatch e k c ps j))"
  by (simp add: publishBatch_events split: option.splits)

lemma startBatch_absent_read:
  assumes "ProofRead i \<in> set (fst (startBatch e k c))" and "GetDataTimeProof e i = None"
  shows "snd (startBatch e k c) = Return (MissingProof i)
     \<and> (\<exists>rs. fst (startBatch e k c) = rs @ [ProofRead i, Closed] \<and> (\<forall>ev\<in>set rs. quiet ev))"
proof (cases rule: startBatch_shape [of e c k])
  case (absent j)
  let ?tw = "takeWhile (present e) (batchWindow (unat (increment c)) 0)"
  have tw: "present e j'" if "j' \<in> set ?tw" for j'
    using that by (auto dest: set_takeWhileD)
  have "i = of_nat j"
  proof (rule ccontr)
    assume "i \<noteq> of_nat j"
    then obtain j' where "j' \<in> set ?tw" "i = of_nat j'"
      using assms(1) absent(2) by auto
    with tw [of j'] assms(2) show False by (simp add: present_def)
  qed
  moreover have "\<forall>ev\<in>set (map (\<lambda>j. ProofRead (of_nat j)) ?tw). quiet ev" by simp
  ultimately show ?thesis using absent(2) by auto
next
  case published
  from assms(1) published(2) obtain j' where
    "j' \<in> set (batchWindow (unat (increment c)) 0)" "i = of_nat j'"
    using publishBatch_no_read by auto
  with published(1) assms(2) show ?thesis by (auto simp: present_def)
qed

lemma session_absent_read:
  assumes "ProofRead i \<in> set (fst (session e p a k c))" and "GetDataTimeProof e i = None"
  shows "snd (session e p a k c) = Return (MissingProof i)
     \<and> (\<exists>rs. fst (session e p a k c) = Opened p # rs @ [ProofRead i, Closed]
          \<and> (\<forall>ev\<in>set rs. quiet ev))"
proof (cases rule: session_shape [of e k p a c])
  case dial
  then show ?thesis using assms by simp
next
  case nostatus
  then show ?thesis using assms by simp
next
  case (fresh status)
  then have "ProofRead i \<in> set (fst (startBatch e k (adoptStatus status c)))"
    using assms(1) by simp
  from startBatch_absent_read [OF this assms(2)] obtain rs where
    "snd (startBatch e k (adoptStatus status c)) = Return (MissingProof i)"
    "fst (startBatch e k (adoptStatus status c)) = rs @ [ProofRead i, Closed]"
    "\<forall>ev\<in>set rs. quiet ev" by blast
  then have "snd (session e p a k c) = Return (MissingProof i)
     \<and> fst (session e p a k c) = Opened p # (StatusCalled a # rs) @ [ProofRead i, Closed]
     \<and> (\<forall>ev\<in>set (StatusCalled a # rs). quiet ev)"
    using fresh(4) by simp
  then show ?thesis by blast
next
  case resumed
  then have "ProofRead i \<in> set (fst (startBatch e k c))" using assms(1) by simp
  from startBatch_absent_read [OF this assms(2)] resumed(3) show ?thesis by simp
qed

lemma sessionLoop_absent_read:
  assumes "ProofRead i \<in> set (fst (sessionLoop fuel e p a k c))"
    and "GetDataTimeProof e i = None"
  shows "snd (sessionLoop fuel e p a k c) = Some (MissingProof i)
     \<and> (\<exists>pre rs. fst (sessionLoop fuel e p a k c) = pre @ Opened p # rs @ [ProofRead i, Closed]
          \<and> (\<forall>ev\<in>set rs. quiet ev))"
  using assms(1)
proof (induction fuel arbitrary: k c)
  case 0
  then show ?case by simp
next
  case (Suc fuel)
  show ?case
  proof (cases "snd (session e p a k c)")
    case (Return r)
    note loop = sessionLoop_Return [OF Return, of fuel]
    from Suc.prems have "ProofRead i \<in> set (fst (session e p a k c))"
      by (simp only: loop fst_conv)
    from session_absent_read [OF this assms(2)] Return obtain rs where
      "r = MissingProof i" "fst (session e p a k c) = [] @ Opened p # rs @ [ProofRead i, Closed]"
      "\<forall>ev\<in>set rs. quiet ev" by auto
    then show ?thesis unfolding loop fst_conv snd_conv by blast
  next
    case (Again c')
    note loop = sessionLoop_Again [OF Again, of fuel]
    have "ProofRead i \<notin> set (fst (session e p a k c))"
      using session_absent_read [OF _ assms(2), of p a k c] Again by auto
    with Suc.prems have "ProofRead i \<in> set (fst (sessionLoop fuel e p a (Suc k) c'))"
      by (simp only: loop fst_conv set_append) blast
    from Suc.IH [OF this] obtain pre rs where
      r: "snd (sessionLoop fuel e p a (Suc k) c') = Some (MissingProof i)"
      "fst (sessionLoop fuel e p a (Suc k) c') = pre @ Opened p # rs @ [ProofRead i, Closed]"
      "\<forall>ev\<in>set rs. quiet ev" by blast
    have "fst (session e p a k c) @ fst (sessionLoop fuel e p a (Suc k) c')
        = (fst (session e p a k c) @ pre) @ Opened p # rs @ [ProofRead i, Closed]"
      by (simp add: r(2))
    then show ?thesis unfolding loop fst_conv snd_conv using r(1,3) by blast
  qed
qed

lemma run_absent_read:
  assumes "ProofRead i \<in> set (fst (runPreMidnightProofWorker fuel e))"
    and "GetDataTimeProof e i = None"
  shows "snd (runPreMidnightProofWorker fuel e) = Some (MissingProof i)
     \<and> (\<exists>pre p rs. fst (runPreMidnightProofWorker fuel e)
            = pre @ Opened p # rs @ [ProofRead i, Closed]
          \<and> (\<forall>ev\<in>set rs. quiet ev))"
proof -
  obtain latest a p where g: "GetLatestDataTimeProof e = Inr latest"
      "snd (waitForCollecting fuel e 0) = Some ()"
      "selfAddress e = Some a" "genesisBeaconPeerId e = Some p"
      "snd (checkAlreadyMinted fuel e a 0) = Some Ready"
    using run_no_sessions [of e fuel] assms(1) by blast
  note r = run_sessions [OF g]
  let ?loop = "sessionLoop fuel e p a 0 \<lparr>resume = replicate 32 0, increment = latest\<rparr>"
  have "ProofRead i \<in> set (fst ?loop)"
    using assms(1) waitForCollecting_events [of fuel e 0] checkAlreadyMinted_events [of fuel e a 0]
    by (auto simp: r)
  from sessionLoop_absent_read [OF this assms(2)] obtain pre rs where
    l: "snd ?loop = Some (MissingProof i)"
    "fst ?loop = pre @ Opened p # rs @ [ProofRead i, Closed]" "\<forall>ev\<in>set rs. quiet ev"
    by blast
  have "fst (runPreMidnightProofWorker fuel e)
      = (fst (waitForCollecting fuel e 0) @ fst (checkAlreadyMinted fuel e a 0) @ pre)
          @ Opened p # rs @ [ProofRead i, Closed]"
    by (simp add: r l(2))
  moreover have "snd (runPreMidnightProofWorker fuel e) = Some (MissingProof i)"
    by (simp add: r l(1))
  ultimately show ?thesis using l(3) by blast
qed

lemma quiet_iff: "quiet ev \<longleftrightarrow> (\<exists>a. ev = StatusCalled a) \<or> (\<exists>j. ev = ProofRead j)"
  by (cases ev) simp_all

lemma gap_fields:
  "GetLatestDataTimeProof gapEnv = Inr 5"
  "state gapEnv k = 3" "EngineStateCollecting gapEnv = 3"
  "genesisBeaconPeerId gapEnv = Some [9]"
  "GetFrameProverTries gapEnv k = 1"
  "GetPreCoinProofsForOwner gapEnv a = ([], Some ErrNotFound)"
  "GetDirectChannel gapEnv k p"
  "GetPreMidnightMintStatus gapEnv k a = Some \<lparr>Address = replicate 32 1, Increment = 3\<rparr>"
  "GetDataTimeProof gapEnv i = (if i = 1 then None else Some (1, [10], [20]))"
  by (simp_all add: gapEnv_def sampleEnv_def)

lemma selfAddress_gap: "selfAddress gapEnv = Some (bigEndian 32 7)"
  by (simp add: selfAddress_def gapEnv_def sampleEnv_def FillBytes_def)

lemma gap_run:
  "runPreMidnightProofWorker (Suc 0) gapEnv =
     ([Opened [9], StatusCalled (bigEndian 32 7), ProofRead 2, ProofRead 1, Closed],
      Some (MissingProof 1))"
proof -
  let ?c0 = "\<lparr>resume = replicate 32 1, increment = 2 :: uint32\<rparr>"
  have w: "batchWindow (unat (increment ?c0)) 0 = [2, 1, 0]"
    by (simp add: batchWindow_small upt_rec)
  have f: "find (\<lambda>j. \<not> present gapEnv j) (batchWindow (unat (increment ?c0)) 0) = Some 1"
    unfolding w by (simp add: present_def gap_fields)
  have t: "takeWhile (present gapEnv) (batchWindow (unat (increment ?c0)) 0) = [2]"
    unfolding w by (simp add: present_def gap_fields)
  have b: "startBatch gapEnv 0 ?c0 = ([ProofRead 2, ProofRead 1, Closed], Return (MissingProof 1))"
    using startBatch_absent [OF f, of 0] unfolding t by simp
  have s: "session gapEnv [9] (bigEndian 32 7) 0 \<lparr>resume = replicate 32 0, increment = 5\<rparr> =
      ([Opened [9], StatusCalled (bigEndian 32 7), ProofRead 2, ProofRead 1, Closed],
       Return (MissingProof 1))"
    by (simp add: session_def gap_fields adoptStatus_def b)
  have l: "sessionLoop (Suc 0) gapEnv [9] (bigEndian 32 7) 0
             \<lparr>resume = replicate 32 0, increment = 5\<rparr> =
      ([Opened [9], StatusCalled (bigEndian 32 7), ProofRead 2, ProofRead 1, Closed],
       Some (MissingProof 1))"
    using sessionLoop_Return [of gapEnv "[9]" "bigEndian 32 7" 0
        "\<lparr>resume = replicate 32 0, increment = 5\<rparr>" "MissingProof 1" 0]
    by (simp only: s fst_conv snd_conv)
  have g1: "snd (waitForCollecting (Suc 0) gapEnv 0) = Some ()"
    and g2: "fst (waitForCollecting (Suc 0) gapEnv 0) = []"
    and g3: "snd (checkAlreadyMinted (Suc 0) gapEnv (bigEndian 32 7) 0) = Some Ready"
    and g4: "fst (checkAlreadyMinted (Suc 0) gapEnv (bigEndian 32 7) 0) = []"
    by (simp_all add: gap_fields)
  show ?thesis
    unfolding run_sessions [OF gap_fields(1) g1 selfAddress_gap gap_fields(4) g3] g2 g4 l
    by simp
qed

text \<open>
  C7. When a read of the local proof store finds no record, the worker stops then and
  there: after that read it closes the channel and returns with the missing increment,
  and since the channel of that session was opened it has done nothing but the status
  call and reads: it has signed nothing, sent nothing and not slept.
\<close>

theorem absent_record_stops_worker:
  assumes "ProofRead i \<in> set (fst (runPreMidnightProofWorker fuel e))"
    and "GetDataTimeProof e i = None"
  shows "snd (runPreMidnightProofWorker fuel e) = Some (MissingProof i)
     \<and> (\<exists>pre p rs. fst (runPreMidnightProofWorker fuel e)
            = pre @ Opened p # rs @ [ProofRead i, Closed]
          \<and> (\<forall>ev\<in>set rs. (\<exists>a. ev = StatusCalled a) \<or> (\<exists>j. ev = ProofRead j)))"
  using run_absent_read [OF assms] by (simp only: quiet_iff)

theorem absent_record_stops_worker_witness:
  "ProofRead 1 \<in> set (fst (runPreMidnightProofWorker (Suc 0) gapEnv))
   \<and> GetDataTimeProof gapEnv 1 = None
   \<and> snd (runPreMidnightProofWorker (Suc 0) gapEnv) = Some (MissingProof 1)
   \<and> (\<exists>pre p rs. fst (runPreMidnightProofWorker (Suc 0) gapEnv)
            = pre @ Opened p # rs @ [ProofRead 1, Closed]
          \<and> (\<forall>ev\<in>set rs. (\<exists>a. ev = StatusCalled a) \<or> (\<exists>j. ev = ProofRead j)))"
proof -
  have h1: "ProofRead 1 \<in> set (fst (runPreMidnightProofWorker (Suc 0) gapEnv))"
    by (simp add: gap_run)
  have h2: "GetDataTimeProof gapEnv 1 = None" by (simp add: gap_fields)
  from absent_record_stops_worker [OF h1 h2] h1 h2 show ?thesis by (intro conjI) simp_all
qed

section \<open>The ownership check\<close>

lemma waitForCollecting_reaches:
  "\<exists>j<fuel. \<not> state e (k + j) < EngineStateCollecting e \<Longrightarrow>
     snd (waitForCollecting fuel e k) = Some ()"
proof (induction fuel arbitrary: k)
  case 0
  then show ?case by simp
next
  case (Suc fuel)
  show ?case
  proof (cases "state e k < EngineStateCollecting e")
    case False
    then show ?thesis by (simp only: snd_waitForCollecting_Suc) simp
  next
    case True
    from Suc.prems obtain j where j: "j < Suc fuel" "\<not> state e (k + j) < EngineStateCollecting e"
      by blast
    with True obtain j' where "j = Suc j'" by (cases j) auto
    with j have "\<exists>j<fuel. \<not> state e (Suc k + j) < EngineStateCollecting e" by auto
    from Suc.IH [OF this] True show ?thesis
      by (simp only: snd_waitForCollecting_Suc) simp
  qed
qed

lemma checkAlreadyMinted_reaches:
  "\<exists>j<fuel. GetFrameProverTries e (k + j) \<noteq> 0 \<Longrightarrow>
     snd (checkAlreadyMinted fuel e a k) =
       (case GetPreCoinProofsForOwner e a of (prfs, err) \<Rightarrow>
          if err \<noteq> None \<and> err \<noteq> Some ErrNotFound then Some (Stop FetchFailed)
          else if length prfs \<noteq> 0 then Some (Stop AlreadyCompleted)
          else Some Ready)"
proof (induction fuel arbitrary: k)
  case 0
  then show ?case by simp
next
  case (Suc fuel)
  show ?case
  proof (cases "GetFrameProverTries e k = 0")
    case False
    then show ?thesis by (simp only: snd_checkAlreadyMinted_Suc) simp
  next
    case True
    from Suc.prems obtain j where j: "j < Suc fuel" "GetFrameProverTries e (k + j) \<noteq> 0"
      by blast
    with True obtain j' where "j = Suc j'" by (cases j) auto
    with j have "\<exists>j<fuel. GetFrameProverTries e (Suc k + j) \<noteq> 0" by auto
    from Suc.IH [OF this] True show ?thesis
      by (simp only: snd_checkAlreadyMinted_Suc) simp
  qed
qed

lemma run_stopped_at_gate:
  assumes "GetLatestDataTimeProof e = Inr latest"
    and "snd (waitForCollecting fuel e 0) = Some ()"
    and "selfAddress e = Some a" and "genesisBeaconPeerId e = Some p"
    and "snd (checkAlreadyMinted fuel e a 0) = Some (Stop r)"
  shows "snd (runPreMidnightProofWorker fuel e) = Some r
     \<and> set (fst (runPreMidnightProofWorker fuel e)) \<subseteq> {Slept}"
proof -
  have "snd (runPreMidnightProofWorker fuel e) = Some r"
    using assms
    by (cases "waitForCollecting fuel e 0"; cases "checkAlreadyMinted fuel e a 0")
       (auto simp: runPreMidnightProofWorker_def selfAddress_def
        split: option.splits prod.splits)
  moreover have "set (fst (runPreMidnightProofWorker fuel e)) \<subseteq> {Slept}"
  proof (rule run_no_sessions)
    show "\<not> (\<exists>latest a p. GetLatestDataTimeProof e = Inr latest
      \<and> snd (waitForCollecting fuel e 0) = Some ()
      \<and> selfAddress e = Some a \<and> genesisBeaconPeerId e = Some p
      \<and> snd (checkAlreadyMinted fuel e a 0) = Some Ready)"
      using assms by auto
  qed
  ultimately show ?thesis by simp
qed

text \<open>
  C9. Once the engine is collecting and prover tries have appeared, the coin store is asked
  for the proofs of the derived address. If it lists a proof (with no error, or with
  not-found), the worker returns as already completed and has done nothing but sleep: no
  channel is ever requested. If it reports not-found and lists nothing, the worker goes on
  to the session loop, from the all-zero resume token. If it reports any other error, the
  worker returns with that failure, again without a session.
\<close>

theorem ownership_check_gates_worker:
  assumes "GetLatestDataTimeProof e = Inr latest"
    and "\<exists>j<fuel. \<not> state e j < EngineStateCollecting e"
    and "selfAddress e = Some a" and "genesisBeaconPeerId e = Some p"
    and "\<exists>j<fuel. GetFrameProverTries e j \<noteq> 0"
    and "GetPreCoinProofsForOwner e a = (prfs, err)"
  shows "(prfs \<noteq> [] \<and> (err = None \<or> err = Some ErrNotFound) \<longrightarrow>
            snd (runPreMidnightProofWorker fuel e) = Some AlreadyCompleted
            \<and> set (fst (runPreMidnightProofWorker fuel e)) \<subseteq> {Slept})
     \<and> (prfs = [] \<and> err = Some ErrNotFound \<longrightarrow>
            runPreMidnightProofWorker fuel e =
              (fst (waitForCollecting fuel e 0) @ fst (checkAlreadyMinted fuel e a 0)
                 @ fst (sessionLoop fuel e p a 0 \<lparr>resume = replicate 32 0, increment = latest\<rparr>),
               snd (sessionLoop fuel e p a 0 \<lparr>resume = replicate 32 0, increment = latest\<rparr>)))
     \<and> (err = Some ErrOther \<longrightarrow>
            snd (runPreMidnightProofWorker fuel e) = Some FetchFailed
            \<and> set (fst (runPreMidnightProofWorker fuel e)) \<subseteq> {Slept})"
proof -
  have w: "snd (waitForCollecting fuel e 0) = Some ()"
    using assms(2) by (intro waitForCollecting_reaches) simp
  have g: "snd (checkAlreadyMinted fuel e a 0) =
       (if err \<noteq> None \<and> err \<noteq> Some ErrNotFound then Some (Stop FetchFailed)
        else if length prfs \<noteq> 0 then Some (Stop AlreadyCompleted)
        else Some Ready)"
    using checkAlreadyMinted_reaches [of fuel e 0 a] assms(5,6) by simp
  have minted: "snd (runPreMidnightProofWorker fuel e) = Some AlreadyCompleted
      \<and> set (fst (runPreMidnightProofWorker fuel e)) \<subseteq> {Slept}"
    if "prfs \<noteq> [] \<and> (err = None \<or> err = Some ErrNotFound)"
  proof (rule run_stopped_at_gate [OF assms(1) w assms(3,4)])
    show "snd (checkAlreadyMinted fuel e a 0) = Some (Stop AlreadyCompleted)"
      using that g by auto
  qed
  have ready: "runPreMidnightProofWorker fuel e =
      (fst (waitForCollecting fuel e 0) @ fst (checkAlreadyMinted fuel e a 0)
         @ fst (sessionLoop fuel e p a 0 \<lparr>resume = replicate 32 0, increment = latest\<rparr>),
       snd (sessionLoop fuel e p a 0 \<lparr>resume = replicate 32 0, increment = latest\<rparr>))"
    if "prfs = [] \<and> err = Some ErrNotFound"
  proof (rule run_sessions [OF assms(1) w assms(3,4)])
    show "snd (checkAlreadyMinted fuel e a 0) = Some Ready" using that g by simp
  qed
  have failed: "snd (runPreMidnightProofWorker fuel e) = Some FetchFailed
      \<and> set (fst (runPreMidnightProofWorker fuel e)) \<subseteq> {Slept}"
    if "err = Some ErrOther"
  proof (rule run_stopped_at_gate [OF assms(1) w assms(3,4)])
    show "snd (checkAlreadyMinted fuel e a 0) = Some (Stop FetchFailed)"
      using that g by simp
  qed
  from minted ready failed show ?thesis by blast
qed

theorem ownership_check_gates_worker_witness:
  "snd (runPreMidnightProofWorker (Suc 0) mintedEnv) = Some AlreadyCompleted
   \<and> set (fst (runPreMidnightProofWorker (Suc 0) mintedEnv)) \<subseteq> {Slept}
   \<and> snd (runPreMidnightProofWorker (Suc 0) brokenStoreEnv) = Some FetchFailed
   \<and> set (fst (runPreMidnightProofWorker (Suc 0) brokenStoreEnv)) \<subseteq> {Slept}
   \<and> runPreMidnightProofWorker (Suc 0) sampleEnv =
       (fst (waitForCollecting (Suc 0) sampleEnv 0)
          @ fst (checkAlreadyMinted (Suc 0) sampleEnv (bigEndian 32 7) 0)
          @ fst (sessionLoop (Suc 0) sampleEnv [9] (bigEndian 32 7) 0
                  \<lparr>resume = replicate 32 0, increment = 5\<rparr>),
        snd (sessionLoop (Suc 0) sampleEnv [9] (bigEndian 32 7) 0
               \<lparr>resume = replicate 32 0, increment = 5\<rparr>))"
proof -
  have am: "selfAddress mintedEnv = Some (bigEndian 32 7)"
    and ab: "selfAddress brokenStoreEnv = Some (bigEndian 32 7)"
    by (simp_all add: selfAddress_def mintedEnv_def brokenStoreEnv_def sampleEnv_def
        FillBytes_def)
  have m: "snd (runPreMidnightProofWorker (Suc 0) mintedEnv) = Some AlreadyCompleted
      \<and> set (fst (runPreMidnightProofWorker (Suc 0) mintedEnv)) \<subseteq> {Slept}"
    using ownership_check_gates_worker
      [of mintedEnv 5 "Suc 0" "bigEndian 32 7" "[9]" "[sampleProof]" None, OF _ _ am]
    by (simp add: mintedEnv_def sampleEnv_def)
  have b: "snd (runPreMidnightProofWorker (Suc 0) brokenStoreEnv) = Some FetchFailed
      \<and> set (fst (runPreMidnightProofWorker (Suc 0) brokenStoreEnv)) \<subseteq> {Slept}"
    using ownership_check_gates_worker
      [of brokenStoreEnv 5 "Suc 0" "bigEndian 32 7" "[9]" "[]" "Some ErrOther", OF _ _ ab]
    by (simp add: brokenStoreEnv_def sampleEnv_def)
  have s: "runPreMidnightProofWorker (Suc 0) sampleEnv =
       (fst (waitForCollecting (Suc 0) sampleEnv 0)
          @ fst (checkAlreadyMinted (Suc 0) sampleEnv (bigEndian 32 7) 0)
          @ fst (sessionLoop (Suc 0) sampleEnv [9] (bigEndian 32 7) 0
                  \<lparr>resume = replicate 32 0, increment = 5\<rparr>),
        snd (sessionLoop (Suc 0) sampleEnv [9] (bigEndian 32 7) 0
               \<lparr>resume = replicate 32 0, increment = 5\<rparr>))"
    using ownership_check_gates_worker
      [of sampleEnv 5 "Suc 0" "bigEndian 32 7" "[9]" "[]" "Some ErrNotFound",
       OF _ _ selfAddress_sample]
    by (simp add: sampleEnv_def)
  from m b s show ?thesis by blast
qed

section \<open>An all-zero address in the status response\<close>

lemma zeroToken_fields:
  "GetPublicKey zeroTokenEnv = [2]"
  "GetPreMidnightMintStatus zeroTokenEnv k a = Some \<lparr>Address = replicate 32 0, Increment = 201\<rparr>"
  "GetDataTimeProof zeroTokenEnv i = Some (1, [10], [20])"
  "SignMessage zeroTokenEnv pl = Some [170]"
  "HandlePreMidnightMint zeroTokenEnv k ps pk sig = Some (replicate 32 2)"
  "GetDirectChannel zeroTokenEnv k p"
  by (simp_all add: zeroTokenEnv_def sampleEnv_def)

text \<open>
  C10 (as amended). When the status response carries 32 zero bytes, the batch of that
  session carries the all-zero token, and the token handed to the next session is still
  the sentinel unless a mint call of this session succeeded and returned another address;
  a next session that starts with the sentinel and gets a channel calls the status
  operation again.
\<close>

theorem zero_status_address_stays_sentinel:
  assumes "resume c = replicate 32 0" and "GetDirectChannel e k p"
    and "GetPreMidnightMintStatus e k a = Some status"
    and "Address status = replicate 32 0"
  shows "(\<forall>ps pk sig. MintCalled ps pk sig \<in> set (fst (session e p a k c))
            \<longrightarrow> take 2 ps = [bytesOf ''pre-dusk'', replicate 32 0])
     \<and> (\<forall>c'. snd (session e p a k c) = Again c' \<longrightarrow>
            resume c' = replicate 32 0
            \<or> (\<exists>ps pk sig. HandlePreMidnightMint e k ps pk sig = Some (resume c')))
     \<and> (\<forall>c'. snd (session e p a k c) = Again c' \<and> resume c' = replicate 32 0
              \<and> GetDirectChannel e (Suc k) p \<longrightarrow>
            (\<exists>rest. fst (session e p a (Suc k) c') = Opened p # StatusCalled a # rest))"
proof (intro conjI allI impI)
  fix ps pk sig assume "MintCalled ps pk sig \<in> set (fst (session e p a k c))"
  then have "MintCalled ps pk sig \<in> set (fst (startBatch e k (adoptStatus status c)))"
    using assms(1,2,3) by (simp add: session_def split: prod.splits)
  from startBatch_token [OF this] show "take 2 ps = [bytesOf ''pre-dusk'', replicate 32 0]"
    by (simp add: adoptStatus_def assms(4))
next
  fix c' assume "snd (session e p a k c) = Again c'"
  from session_again_token [OF this]
  show "resume c' = replicate 32 0
      \<or> (\<exists>ps pk sig. HandlePreMidnightMint e k ps pk sig = Some (resume c'))"
    using assms(1,3,4) by auto
next
  fix c' assume h: "snd (session e p a k c) = Again c' \<and> resume c' = replicate 32 0
              \<and> GetDirectChannel e (Suc k) p"
  show "\<exists>rest. fst (session e p a (Suc k) c') = Opened p # StatusCalled a # rest"
    using h by (cases "GetPreMidnightMintStatus e (Suc k) a")
      (simp_all add: session_def split: prod.splits)
qed

lemma zeroToken_session:
  "session zeroTokenEnv [9] [7] 0 \<lparr>resume = replicate 32 0, increment = 5\<rparr> =
     (Opened [9] # StatusCalled [7]
        # map (\<lambda>j. ProofRead (of_nat j)) (batchWindow 200 0)
        @ [Signed (signingPayload (batchOf zeroTokenEnv \<lparr>resume = replicate 32 0, increment = 200\<rparr>)),
           MintCalled (batchOf zeroTokenEnv \<lparr>resume = replicate 32 0, increment = 200\<rparr>) [2] [170],
           Closed],
      Again \<lparr>resume = replicate 32 2, increment = 0\<rparr>)"
proof -
  let ?c0 = "\<lparr>resume = replicate 32 0, increment = 200 :: uint32\<rparr>"
  have c0: "?c0 = adoptStatus \<lparr>Address = replicate 32 0, Increment = 201\<rparr>
                   \<lparr>resume = replicate 32 0, increment = 5\<rparr>"
    by (simp add: adoptStatus_def)
  have n: "unat (increment ?c0) = 200" by simp
  have low: "batchLow 200 0 = 1" by (simp add: batchLow_def)
  have p: "\<forall>j\<in>set (batchWindow (unat (increment ?c0)) 0). present zeroTokenEnv j"
    by (simp add: present_def zeroToken_fields)
  have r: "resume \<lparr>resume = replicate 32 0, increment = 5 :: uint32\<rparr> = replicate 32 0" by simp
  from session_fresh_publishes [OF zeroToken_fields(6) r zeroToken_fields(2) c0 p
      zeroToken_fields(4) zeroToken_fields(5), of "[9]"]
  show ?thesis unfolding n low by (simp add: zeroToken_fields)
qed

text \<open>
  C10 as worded fails: the status response carries 32 zero bytes, the mint call of
  the same session succeeds and returns another address, and the next session, which does
  get a channel, makes no status call.
\<close>

theorem zero_status_counterexample:
  "GetPreMidnightMintStatus zeroTokenEnv 0 [7]
     = Some \<lparr>Address = replicate 32 0, Increment = 201\<rparr>
   \<and> snd (session zeroTokenEnv [9] [7] 0 \<lparr>resume = replicate 32 0, increment = 5\<rparr>)
       = Again \<lparr>resume = replicate 32 2, increment = 0\<rparr>
   \<and> GetDirectChannel zeroTokenEnv 1 [9]
   \<and> StatusCalled [7]
       \<notin> set (fst (session zeroTokenEnv [9] [7] 1 \<lparr>resume = replicate 32 2, increment = 0\<rparr>))"
proof -
  have "StatusCalled [7]
       \<notin> set (fst (session zeroTokenEnv [9] [7] 1 \<lparr>resume = replicate 32 2, increment = 0\<rparr>))"
    using startBatch_no_status [of "[7]" zeroTokenEnv 1 "\<lparr>resume = replicate 32 2, increment = 0\<rparr>"]
    by (auto simp: session_def zeroToken_fields split: prod.splits)
  then show ?thesis by (simp add: zeroToken_session zeroToken_fields)
qed

lemma zeroTokenRefused_fields:
  "GetPublicKey zeroTokenRefusedEnv = [2]"
  "GetPreMidnightMintStatus zeroTokenRefusedEnv k a
     = Some \<lparr>Address = replicate 32 0, Increment = 201\<rparr>"
  "GetDataTimeProof zeroTokenRefusedEnv i = Some (1, [10], [20])"
  "SignMessage zeroTokenRefusedEnv pl = Some [170]"
  "HandlePreMidnightMint zeroTokenRefusedEnv k ps pk sig = None"
  "GetDirectChannel zeroTokenRefusedEnv k p"
  by (simp_all add: zeroTokenRefusedEnv_def zeroTokenEnv_def sampleEnv_def)

lemma zeroTokenRefused_session:
  "snd (session zeroTokenRefusedEnv [9] [7] 0 \<lparr>resume = replicate 32 0, increment = 5\<rparr>)
     = Again \<lparr>resume = replicate 32 0, increment = 200\<rparr>"
proof -
  let ?c0 = "\<lparr>resume = replicate 32 0, increment = 200 :: uint32\<rparr>"
  have c0: "adoptStatus \<lparr>Address = replicate 32 0, Increment = 201\<rparr>
                   \<lparr>resume = replicate 32 0, increment = 5\<rparr> = ?c0"
    by (simp add: adoptStatus_def)
  have p: "\<forall>j\<in>set (batchWindow (unat (increment ?c0)) 0). present zeroTokenRefusedEnv j"
    by (simp add: present_def zeroTokenRefused_fields)
  show ?thesis
    by (simp add: session_def zeroTokenRefused_fields c0 startBatch_all_present [OF p]
        publishBatch_def split: prod.splits)
qed

theorem zero_status_address_stays_sentinel_witness:
  "snd (session zeroTokenRefusedEnv [9] [7] 0 \<lparr>resume = replicate 32 0, increment = 5\<rparr>)
     = Again \<lparr>resume = replicate 32 0, increment = 200\<rparr>
   \<and> (\<exists>rest. fst (session zeroTokenRefusedEnv [9] [7] (Suc 0)
                     \<lparr>resume = replicate 32 0, increment = 200\<rparr>)
         = Opened [9] # StatusCalled [7] # rest)"
proof -
  have h1: "resume \<lparr>resume = replicate 32 0, increment = 5 :: uint32\<rparr> = replicate 32 0"
    by simp
  have h4: "Address \<lparr>Address = replicate 32 0, Increment = 201 :: uint32\<rparr> = replicate 32 0"
    by simp
  note t = zero_status_address_stays_sentinel
    [OF h1 zeroTokenRefused_fields(6) [of 0 "[9]"] zeroTokenRefused_fields(2) [of 0 "[7]"] h4,
     THEN conjunct2, THEN conjunct2, rule_format,
     of "\<lparr>resume = replicate 32 0, increment = 200\<rparr>"]
  have "\<exists>rest. fst (session zeroTokenRefusedEnv [9] [7] (Suc 0)
                     \<lparr>resume = replicate 32 0, increment = 200\<rparr>)
         = Opened [9] # StatusCalled [7] # rest"
    by (rule t) (simp add: zeroTokenRefused_session zeroTokenRefused_fields)
  then show ?thesis using zeroTokenRefused_session by simp
qed

section \<open>The address of a pre-coin proof: what is hashed\<close>

lemma preCoinProofEval_eq:
  "preCoinProofEval t p ownerAddress =
     t @ Amount p @ bigEndianUint32 (Index p) @ IndexProof p @ Commitment p @ Proof p
       @ bigEndianUint32 (Parallelism p) @ bigEndianUint32 (Difficulty p)
       @ bigEndianUint32 0 @ ownerAddress"
  by (simp add: preCoinProofEval_def AppendUint32_eq Let_def)

lemma byte_of_nat_inj:
  "a < 256 \<Longrightarrow> b < 256 \<Longrightarrow> (of_nat a :: byte) = of_nat b \<Longrightarrow> a = b"
  by (simp add: word_of_nat_eq_iff take_bit_nat_eq_self)

lemma bigEndian_inj:
  "v < 256 ^ n \<Longrightarrow> v' < 256 ^ n \<Longrightarrow> bigEndian n v = bigEndian n v' \<Longrightarrow> v = v'"
proof (induction n arbitrary: v v')
  case 0
  then show ?case by simp
next
  case (Suc n)
  from Suc.prems(3) have hi: "bigEndian n (v div 256) = bigEndian n (v' div 256)"
    and lo: "(of_nat (v mod 256) :: byte) = of_nat (v' mod 256)"
    by (simp_all add: length_bigEndian)
  have "v div 256 < 256 ^ n" "v' div 256 < 256 ^ n"
    using Suc.prems(1,2) by (simp_all add: less_mult_imp_div_less mult.commute)
  from Suc.IH [OF this hi] have d: "v div 256 = v' div 256" .
  have m: "v mod 256 = v' mod 256" using lo by (intro byte_of_nat_inj) simp_all
  have "v = 256 * (v div 256) + v mod 256" by simp
  also have "\<dots> = 256 * (v' div 256) + v' mod 256" by (simp only: d m)
  also have "\<dots> = v'" by simp
  finally show ?case .
qed

lemma GetAddress_ok:
  assumes "Owner p = Some ownerAddress"
    and "h (preCoinProofEval t p ownerAddress) = Some v" and "v < 256 ^ 32"
  shows "GetAddressOfPreCoinProof h t p = Inr (bigEndian 32 v)"
  using assms by (simp add: GetAddressOfPreCoinProof_def FillBytes_def)

text \<open>
  C2 (as amended). For a proof with an implicit-account owner, the bytes hashed are the
  token address, amount, big-endian 32-bit index, index proof, commitment, proof,
  big-endian 32-bit parallelism, big-endian 32-bit difficulty, a 32-bit zero and the
  owner's address, in this order. When the hash gives a value below \<open>256 ^ 32\<close> the
  result is that value as exactly 32 big-endian bytes; when the hash fails, so does the
  function. The result depends on the fields through the concatenation only: two proofs
  with the same concatenation get the same address, and two proofs whose concatenations
  the hash tells apart get different addresses.
\<close>

theorem address_of_pre_coin_proof:
  assumes "Owner p = Some ownerAddress"
  shows "preCoinProofEval t p ownerAddress =
       t @ Amount p @ bigEndianUint32 (Index p) @ IndexProof p @ Commitment p @ Proof p
         @ bigEndianUint32 (Parallelism p) @ bigEndianUint32 (Difficulty p)
         @ bigEndianUint32 0 @ ownerAddress
     \<and> (\<forall>v. h (preCoinProofEval t p ownerAddress) = Some v \<and> v < 256 ^ 32 \<longrightarrow>
            GetAddressOfPreCoinProof h t p = Inr (bigEndian 32 v)
            \<and> length (bigEndian 32 v) = 32)
     \<and> (h (preCoinProofEval t p ownerAddress) = None \<longrightarrow>
            GetAddressOfPreCoinProof h t p = Inl HashError)
     \<and> (\<forall>q qa. Owner q = Some qa
              \<and> preCoinProofEval t q qa = preCoinProofEval t p ownerAddress \<longrightarrow>
            GetAddressOfPreCoinProof h t q = GetAddressOfPreCoinProof h t p)
     \<and> (\<forall>q qa v v'. Owner q = Some qa
              \<and> h (preCoinProofEval t p ownerAddress) = Some v \<and> v < 256 ^ 32
              \<and> h (preCoinProofEval t q qa) = Some v' \<and> v' < 256 ^ 32 \<and> v \<noteq> v' \<longrightarrow>
            GetAddressOfPreCoinProof h t q \<noteq> GetAddressOfPreCoinProof h t p)"
proof (intro conjI allI impI)
  show "preCoinProofEval t p ownerAddress =
       t @ Amount p @ bigEndianUint32 (Index p) @ IndexProof p @ Commitment p @ Proof p
         @ bigEndianUint32 (Parallelism p) @ bigEndianUint32 (Difficulty p)
         @ bigEndianUint32 0 @ ownerAddress"
    by (rule preCoinProofEval_eq)
next
  fix v assume "h (preCoinProofEval t p ownerAddress) = Some v \<and> v < 256 ^ 32"
  then show "GetAddressOfPreCoinProof h t p = Inr (bigEndian 32 v)"
    using GetAddress_ok [OF assms] by blast
  show "length (bigEndian 32 v) = 32" by (rule length_bigEndian)
next
  assume "h (preCoinProofEval t p ownerAddress) = None"
  then show "GetAddressOfPreCoinProof h t p = Inl HashError"
    using assms by (simp add: GetAddressOfPreCoinProof_def)
next
  fix q qa
  assume "Owner q = Some qa \<and> preCoinProofEval t q qa = preCoinProofEval t p ownerAddress"
  then show "GetAddressOfPreCoinProof h t q = GetAddressOfPreCoinProof h t p"
    using assms by (simp add: GetAddressOfPreCoinProof_def)
next
  fix q qa v v'
  assume h: "Owner q = Some qa
              \<and> h (preCoinProofEval t p ownerAddress) = Some v \<and> v < 256 ^ 32
              \<and> h (preCoinProofEval t q qa) = Some v' \<and> v' < 256 ^ 32 \<and> v \<noteq> v'"
  then have "GetAddressOfPreCoinProof h t p = Inr (bigEndian 32 v)"
    and "GetAddressOfPreCoinProof h t q = Inr (bigEndian 32 v')"
    using GetAddress_ok [OF assms, of h t v] GetAddress_ok [of q qa h t v'] by blast+
  moreover have "bigEndian 32 v' \<noteq> bigEndian 32 v"
    using h bigEndian_inj [of v' 32 v] by blast
  ultimately show "GetAddressOfPreCoinProof h t q \<noteq> GetAddressOfPreCoinProof h t p"
    by simp
qed

lemma sampleProof_hashed:
  "lengthHash (preCoinProofEval [3] sampleProof (replicate 32 7)) = Some 53"
  "lengthHash (preCoinProofEval [3] swappedProof (replicate 32 7)) = Some 53"
  by (simp_all add: lengthHash_def preCoinProofEval_eq length_bigEndianUint32
      sampleProof_def swappedProof_def)

lemma sampleProof_owner:
  "Owner sampleProof = Some (replicate 32 7)" "Owner swappedProof = Some (replicate 32 7)"
  by (simp_all add: sampleProof_def swappedProof_def)

theorem address_of_pre_coin_proof_witness:
  "GetAddressOfPreCoinProof lengthHash [3] sampleProof = Inr (bigEndian 32 53)
   \<and> length (bigEndian 32 53) = 32"
proof -
  have "(53 :: nat) < 256 ^ 32" by simp
  with address_of_pre_coin_proof [OF sampleProof_owner(1), of "[3]" lengthHash]
    sampleProof_hashed(1)
  show ?thesis by blast
qed

text \<open>
  C2 as worded fails: swapping commitment and proof, which differ, leaves the
  concatenation and so the address unchanged, whatever the hash.
\<close>

theorem swapped_fields_counterexample:
  "Commitment sampleProof \<noteq> Proof sampleProof
   \<and> Commitment swappedProof = Proof sampleProof
   \<and> Proof swappedProof = Commitment sampleProof
   \<and> swappedProof \<noteq> sampleProof
   \<and> (\<forall>h t. GetAddressOfPreCoinProof h t swappedProof
               = GetAddressOfPreCoinProof h t sampleProof)
   \<and> GetAddressOfPreCoinProof lengthHash [3] sampleProof = Inr (bigEndian 32 53)
   \<and> GetAddressOfPreCoinProof lengthHash [3] swappedProof = Inr (bigEndian 32 53)"
proof -
  have e: "preCoinProofEval t swappedProof (replicate 32 7)
         = preCoinProofEval t sampleProof (replicate 32 7)" for t
    by (simp add: preCoinProofEval_eq sampleProof_def swappedProof_def)
  have "GetAddressOfPreCoinProof h t swappedProof = GetAddressOfPreCoinProof h t sampleProof"
    for h t
    by (simp add: GetAddressOfPreCoinProof_def sampleProof_owner e)
  moreover have "swappedProof \<noteq> sampleProof"
    by (simp add: sampleProof_def swappedProof_def)
  moreover have "(53 :: nat) < 256 ^ 32" by simp
  then have "GetAddressOfPreCoinProof lengthHash [3] sampleProof = Inr (bigEndian 32 53)"
    "GetAddressOfPreCoinProof lengthHash [3] swappedProof = Inr (bigEndian 32 53)"
    using GetAddress_ok [where h = lengthHash and t = "[3]", OF sampleProof_owner(1) sampleProof_hashed(1)]
      GetAddress_ok [where h = lengthHash and t = "[3]", OF sampleProof_owner(2) sampleProof_hashed(2)]
    by simp_all
  ultimately show ?thesis by (simp add: sampleProof_def swappedProof_def)
qed

end
